theory Spec2Isabelle
  imports Main
begin

unbundle bit_operations_syntax

section \<open>Python and numpy values\<close>

text \<open>
  The module is Python 2 code on top of numpy and h5py.  Exceptions are values of
  \<open>error\<close>; a function that can raise returns \<open>error + 'a\<close> with \<open>Inl\<close> the exception.
  Python integers are \<open>int\<close>.
\<close>

datatype error =
  ValueError | IndexError | TypeError | RuntimeError | AttributeError
  | ZeroDivisionError | OverflowError

datatype np_dtype = uint8 | uint16 | uint32 | uint64 | other_dtype

text \<open>\<open>np.iinfo(dtype).max\<close> for the unsigned types the module names.\<close>

fun iinfo_max :: "np_dtype \<Rightarrow> nat" where
  "iinfo_max uint8 = 255"
| "iinfo_max uint16 = 65535"
| "iinfo_max uint32 = 4294967295"
| "iinfo_max uint64 = 18446744073709551615"
| "iinfo_max other_dtype = 0"

fun dtype_bits :: "np_dtype \<Rightarrow> nat" where
  "dtype_bits uint8 = 8"
| "dtype_bits uint16 = 16"
| "dtype_bits uint32 = 32"
| "dtype_bits uint64 = 64"
| "dtype_bits other_dtype = 0"

text \<open>
  Indexing a Python list (or a numpy array) of length \<open>n\<close> with the integer \<open>i\<close>:
  a negative index counts from the end, anything outside \<open>[-n, n)\<close> raises IndexError
  (\<open>None\<close> here; the caller turns it into the exception).
\<close>

definition py_index :: "nat \<Rightarrow> int \<Rightarrow> nat option" where
  "py_index n i =
     (if 0 \<le> i \<and> i < int n then Some (nat i)
      else if - int n \<le> i \<and> i < 0 then Some (nat (int n + i))
      else None)"

text \<open>
  A slice bound \<open>k\<close> on a sequence of length \<open>n\<close>: negative bounds count from the end,
  and the bound is clipped to \<open>[0, n]\<close>.
\<close>

definition py_slice_bound :: "nat \<Rightarrow> int \<Rightarrow> nat" where
  "py_slice_bound n k = (if k < 0 then nat (int n + k) else min n (nat k))"

text \<open>
  \<open>int(ceil(float(a) / b))\<close> for a positive \<open>b\<close>.  The division is done in double
  precision; it is exact for every \<open>a\<close> below \<open>2^53\<close>, far beyond any row count that
  fits in memory, and the model takes the exact ceiling.
\<close>

definition ceil_div :: "int \<Rightarrow> int \<Rightarrow> int" where
  "ceil_div a b = - ((- a) div b)"

section \<open>Result width of a column sum\<close>

text \<open>\<open>_column_sum_dtype(array)\<close>; the argument here is \<open>array.shape[0]\<close>.\<close>

definition column_sum_dtype :: "nat \<Rightarrow> np_dtype" where
  "column_sum_dtype n =
     (if n \<le> iinfo_max uint8 then uint8
      else if n \<le> iinfo_max uint16 then uint16
      else if n \<le> iinfo_max uint32 then uint32
      else uint64)"

section \<open>Row masks\<close>

text \<open>
  \<open>np.array(masks, dtype="u" + str(mask_n_bits / 8))\<close>: numpy knows the unsigned
  integer types of 1, 2, 4 and 8 bytes; any other item size is not a data type and the
  call raises TypeError.  The list elements are Python integers; the masks built below
  always fit the word (lemma \<open>mask_loop_range\<close>), so the out-of-range branch is never
  taken by this module.
\<close>

definition np_array_uint :: "int list \<Rightarrow> int \<Rightarrow> error + int list" where
  "np_array_uint masks itemsize =
     (if itemsize \<notin> set [1, 2, 4, 8] then Inl TypeError
      else if list_all (\<lambda>m. 0 \<le> m \<and> m < 2 ^ nat (8 * itemsize)) masks then Inr masks
      else Inl OverflowError)"

text \<open>
  The loop of \<open>build_row_mask\<close> over \<open>example_idx\<close>.  \<open>/\<close> on Python 2 integers is floor
  division, so \<open>idx - mask_n_bits * example_mask\<close> is \<open>idx mod mask_n_bits\<close> and the
  shift count lies in \<open>[0, mask_n_bits)\<close>.
\<close>

fun mask_loop :: "int list \<Rightarrow> int \<Rightarrow> int list \<Rightarrow> error + int list" where
  "mask_loop masks mask_n_bits [] = Inr masks"
| "mask_loop masks mask_n_bits (idx # rest) =
     (let example_mask = idx div mask_n_bits;
          example_mask_idx = mask_n_bits - (idx - mask_n_bits * example_mask) - 1
      in case py_index (length masks) example_mask of
           None \<Rightarrow> Inl IndexError
         | Some j \<Rightarrow>
             mask_loop (masks[j := (masks ! j) OR push_bit (nat example_mask_idx) 1])
               mask_n_bits rest)"

definition build_row_mask :: "int list \<Rightarrow> int \<Rightarrow> int \<Rightarrow> error + int list" where
  "build_row_mask example_idx n_examples mask_n_bits =
     (if mask_n_bits \<notin> set [8, 16, 32, 64, 128] then Inl ValueError
      else
        let n_masks = ceil_div n_examples mask_n_bits;
            masks = replicate (nat n_masks) 0
        in case mask_loop masks mask_n_bits example_idx of
             Inl e \<Rightarrow> Inl e
           | Inr masks' \<Rightarrow> np_array_uint masks' (mask_n_bits div 8))"

section \<open>Backing datasets\<close>

text \<open>
  A backing dataset is a two-dimensional array of packed words: \<open>ds_data\<close> holds one
  list of words per physical (packed) row, \<open>ds_cols\<close> is \<open>shape[1]\<close>, and
  \<open>shape[0]\<close> is the number of packed rows.  \<open>ds_chunks\<close> is \<open>None\<close> for a dataset
  that is not chunked.
\<close>

record dataset =
  ds_cols :: nat
  ds_dtype :: np_dtype
  ds_chunks :: "(nat \<times> nat) option"
  ds_data :: "int list list"

text \<open>\<open>dataset[:, column]\<close>; the backend raises for a column outside the shape.\<close>

definition read_column :: "dataset \<Rightarrow> nat \<Rightarrow> error + int list" where
  "read_column d column =
     (if column < ds_cols d then Inr (map (\<lambda>row. row ! column) (ds_data d))
      else Inl IndexError)"

text \<open>
  \<open>dataset[rows, lo:hi]\<close> with a list of row numbers and a column slice, which is
  clipped to the shape as every slice is.
\<close>

definition read_block :: "dataset \<Rightarrow> nat list \<Rightarrow> nat \<Rightarrow> nat \<Rightarrow> error + int list list" where
  "read_block d rows lo hi =
     (if list_all (\<lambda>r. r < length (ds_data d)) rows
      then Inr (map (\<lambda>r. take (min hi (ds_cols d) - min lo (ds_cols d))
                        (drop (min lo (ds_cols d)) (ds_data d ! r))) rows)
      else Inl IndexError)"

section \<open>Packed word codec\<close>

text \<open>
  Modelled from the spec: \<open>_unpack_binary_bytes_from_ints\<close> lives in the package's
  \<open>utils\<close> module, which is not part of the sources at hand.  The spec describes it as
  the pure bit-unpacking of a sequence of packed words into one boolean per physical
  row, most significant bit first (the order the mask builder uses).
\<close>

definition unpack_binary_bytes_from_ints :: "nat \<Rightarrow> int list \<Rightarrow> bool list" where
  "unpack_binary_bytes_from_ints pack_size a =
     concat (map (\<lambda>w. map (\<lambda>k. bit w (pack_size - 1 - k)) [0..<pack_size]) a)"

definition popcount :: "nat \<Rightarrow> int \<Rightarrow> int" where
  "popcount width w = int (length (filter (bit w) [0..<width]))"

text \<open>
  Modelled from the spec: \<open>inplace_popcount_32\<close> and \<open>inplace_popcount_64\<close> live in
  the package's \<open>popcount\<close> extension module, which is not part of the sources at hand.
  The spec describes the primitive as taking a loaded block and a row mask, excluding
  the bits of masked-out rows and reducing every word to its bit count, so that a
  column-wise sum of the block is the masked population count: word \<open>j\<close> of block row
  \<open>i\<close> becomes the number of bits set in it under \<open>row_mask[i]\<close>.
\<close>

definition inplace_popcount :: "nat \<Rightarrow> int list list \<Rightarrow> int list \<Rightarrow> int list list" where
  "inplace_popcount width block row_mask =
     map (\<lambda>(row, m). map (\<lambda>w. popcount width (w AND m)) row) (zip block row_mask)"

section \<open>The packed attribute classifications object\<close>

text \<open>
  The attributes of \<open>HDF5PackedAttributeClassifications\<close>.  \<open>row_block_size\<close> and
  \<open>col_block_size\<close> are \<open>None\<close> while the attribute does not exist on the object.
  The attribute \<open>inplace_popcount\<close> is determined by \<open>dataset_pack_size\<close> and is not
  stored separately.
\<close>

record state =
  datasets :: "dataset list"
  dataset_initial_n_rows :: "int list"
  dataset_n_rows :: "int list"
  initial_total_n_rows :: int
  total_n_rows :: int
  dataset_n_cols :: nat
  dataset_dtype :: np_dtype
  dataset_removed_rows :: "int list list"
  row_block_size :: "nat option"
  col_block_size :: "nat option"
  dataset_stop_example :: "int list"
  dataset_start_example :: "int list"
  dataset_pack_size :: nat

text \<open>The two loops of the constructor that fill the stop and start offsets.\<close>

definition init_stop_loop :: "nat \<Rightarrow> int list \<Rightarrow> int list" where
  "init_stop_loop n n_rows =
     fold (\<lambda>i stop. stop[i := (if i = 0 then 0 else stop ! (i - 1)) + n_rows ! i])
       [0..<n] (replicate n 0)"

definition init_start_loop :: "nat \<Rightarrow> int list \<Rightarrow> int list" where
  "init_start_loop n stop =
     fold (\<lambda>i start. start[i := (if i = 0 then 0 else stop ! (i - 1))])
       [0..<n] (replicate n 0)"

text \<open>
  \<open>__init__(datasets, n_rows, row_block_size, col_block_size)\<close>.  The exceptions come
  in the order of the source: \<open>datasets[0]\<close> of an empty list, \<open>chunks[0]\<close> of a dataset
  that is not chunked, the column and type comparison, \<open>dataset_n_rows[i]\<close> past the
  end of \<open>n_rows\<close>, and the unsupported word type.  A block size that is passed is not
  assigned to the object: only the \<open>is None\<close> branches assign.
\<close>

definition init ::
  "dataset list \<Rightarrow> int list \<Rightarrow> int option \<Rightarrow> int option \<Rightarrow> error + state" where
  "init dss n_rows row_block_size_arg col_block_size_arg =
     (case dss of
        [] \<Rightarrow> Inl IndexError
      | d0 # rest \<Rightarrow>
          if (row_block_size_arg = None \<or> col_block_size_arg = None) \<and> ds_chunks d0 = None
          then Inl TypeError
          else if \<not> list_all (\<lambda>d. ds_cols d = ds_cols d0 \<and> ds_dtype d = ds_dtype d0) rest
          then Inl RuntimeError
          else if length n_rows < length dss then Inl IndexError
          else if ds_dtype d0 \<noteq> uint32 \<and> ds_dtype d0 \<noteq> uint64 then Inl ValueError
          else
            let stop = init_stop_loop (length dss) n_rows in
            Inr \<lparr> datasets = dss,
                  dataset_initial_n_rows = n_rows,
                  dataset_n_rows = n_rows,
                  initial_total_n_rows = sum_list n_rows,
                  total_n_rows = sum_list n_rows,
                  dataset_n_cols = ds_cols d0,
                  dataset_dtype = ds_dtype d0,
                  dataset_removed_rows = replicate (length dss) [],
                  row_block_size =
                    (if row_block_size_arg = None then map_option fst (ds_chunks d0) else None),
                  col_block_size =
                    (if col_block_size_arg = None then map_option snd (ds_chunks d0) else None),
                  dataset_stop_example = stop,
                  dataset_start_example = init_start_loop (length dss) stop,
                  dataset_pack_size = (if ds_dtype d0 = uint32 then 32 else 64) \<rparr>)"

text \<open>The \<open>shape\<close> property.\<close>

definition shape :: "state \<Rightarrow> int \<times> nat" where
  "shape st = (total_n_rows st, dataset_n_cols st)"

text \<open>\<open>_get_row_dataset(row_idx)\<close>: the first dataset whose range holds the row, or -1.\<close>

definition get_row_dataset :: "state \<Rightarrow> int \<Rightarrow> int" where
  "get_row_dataset st row_idx =
     (case find (\<lambda>i. dataset_stop_example st ! i > row_idx
                     \<and> row_idx \<ge> dataset_start_example st ! i)
             [0..<length (datasets st)] of
        Some i \<Rightarrow> int i
      | None \<Rightarrow> - 1)"

section \<open>Removing rows\<close>

text \<open>
  The first loop of \<open>remove_rows\<close>: it fills the local per-dataset lists and touches no
  attribute of the object.
\<close>

fun locate_loop :: "state \<Rightarrow> int list \<Rightarrow> int list list \<Rightarrow> error + int list list" where
  "locate_loop st [] acc = Inr acc"
| "locate_loop st (row_idx # rows) acc =
     (let ds_idx = get_row_dataset st row_idx in
      if ds_idx = - 1 then Inl IndexError
      else locate_loop st rows
             (acc[nat ds_idx := acc ! nat ds_idx
                    @ [row_idx - dataset_start_example st ! nat ds_idx]]))"

text \<open>One iteration of the second loop, for dataset \<open>i\<close>.\<close>

definition remove_step :: "int list list \<Rightarrow> nat \<Rightarrow> state \<Rightarrow> state" where
  "remove_step new i st =
     (let st1 =
            (if length (new ! i) > 0 then
               let merged = sort (remdups (dataset_removed_rows st ! i @ new ! i)) in
               st\<lparr> dataset_removed_rows := (dataset_removed_rows st)[i := merged],
                   dataset_n_rows := (dataset_n_rows st)
                      [i := dataset_initial_n_rows st ! i - int (length merged)] \<rparr>
             else st);
          stop = (dataset_stop_example st1)
                   [i := dataset_n_rows st1 ! i
                         + (if i = 0 then 0 else dataset_stop_example st1 ! (i - 1))];
          start = (dataset_start_example st1)
                   [i := (if i = 0 then 0 else stop ! (i - 1))]
      in st1\<lparr> dataset_stop_example := stop, dataset_start_example := start \<rparr>)"

text \<open>
  \<open>remove_rows(rows)\<close> mutates the object; the model returns the exception, if any,
  together with the object as the call leaves it.
\<close>

definition remove_rows :: "state \<Rightarrow> int list \<Rightarrow> error option \<times> state" where
  "remove_rows st rows =
     (case locate_loop st rows (replicate (length (datasets st)) []) of
        Inl e \<Rightarrow> (Some e, st)
      | Inr new \<Rightarrow>
          (let st' = fold (remove_step new) [0..<length (datasets st)] st
           in (None, st'\<lparr> total_n_rows := sum_list (dataset_n_rows st') \<rparr>)))"

section \<open>Extracting a column\<close>

text \<open>
  \<open>row_mask[rows] = False\<close> with a list of integers: every index must lie in the
  array, the negative ones counting from the end.
\<close>

fun np_set_false :: "bool list \<Rightarrow> int list \<Rightarrow> error + bool list" where
  "np_set_false row_mask [] = Inr row_mask"
| "np_set_false row_mask (r # rs) =
     (case py_index (length row_mask) r of
        None \<Rightarrow> Inl IndexError
      | Some j \<Rightarrow> np_set_false (row_mask[j := False]) rs)"

text \<open>
  \<open>result[start:stop] = vals\<close> on a one-dimensional array: the values must be as many
  as the slice is long, or a single value that is broadcast; otherwise numpy raises
  ValueError.
\<close>

definition np_assign_slice :: "'a list \<Rightarrow> int \<Rightarrow> int \<Rightarrow> 'a list \<Rightarrow> error + 'a list" where
  "np_assign_slice result start stop vals =
     (let lo = py_slice_bound (length result) start;
          hi = py_slice_bound (length result) stop;
          len = hi - lo
      in if length vals = len then Inr (take lo result @ vals @ drop (lo + len) result)
         else if length vals = 1
         then Inr (take lo result @ replicate len (hd vals) @ drop (lo + len) result)
         else Inl ValueError)"

text \<open>The body of the loop of \<open>get_column\<close> for dataset \<open>i\<close>.\<close>

definition get_column_step :: "state \<Rightarrow> nat \<Rightarrow> nat \<Rightarrow> bool list \<Rightarrow> error + bool list" where
  "get_column_step st column i result =
     (let dataset = datasets st ! i;
          n = length (ds_data dataset) * dataset_pack_size st;
          k = py_slice_bound n (dataset_initial_n_rows st ! i);
          row_mask1 = take k (replicate n True) @ replicate (n - k) False
      in case np_set_false row_mask1 (dataset_removed_rows st ! i) of
           Inl e \<Rightarrow> Inl e
         | Inr row_mask \<Rightarrow>
             (case read_column dataset column of
                Inl e \<Rightarrow> Inl e
              | Inr col \<Rightarrow>
                  np_assign_slice result
                    (dataset_start_example st ! i) (dataset_stop_example st ! i)
                    (map fst (filter snd
                       (zip (unpack_binary_bytes_from_ints (dataset_pack_size st) col)
                            row_mask)))))"

text \<open>A loop whose body can raise: the first exception ends it.\<close>

fun fold_err :: "('a \<Rightarrow> 's \<Rightarrow> error + 's) \<Rightarrow> 'a list \<Rightarrow> 's \<Rightarrow> error + 's" where
  "fold_err f [] s = Inr s"
| "fold_err f (x # xs) s = (case f x s of Inl e \<Rightarrow> Inl e | Inr s' \<Rightarrow> fold_err f xs s')"

text \<open>
  \<open>get_column(column)\<close>.  The result is an array of 0 and 1, read here as booleans;
  \<open>np.zeros\<close> of a negative length raises ValueError.
\<close>

definition get_column :: "state \<Rightarrow> nat \<Rightarrow> error + bool list" where
  "get_column st column =
     (if total_n_rows st < 0 then Inl ValueError
      else fold_err (get_column_step st column) [0..<length (datasets st)]
             (replicate (nat (total_n_rows st)) False))"

section \<open>Summing rows\<close>

text \<open>
  The loop of \<open>sum_rows\<close> that finds, for every row, its dataset and the row it
  addresses inside it: the index relative to the dataset's start plus the number of
  removed rows that are at most that index.  (The \<open>print\<close> in the loop is left out.)
\<close>

fun relative_loop :: "state \<Rightarrow> int list \<Rightarrow> int list list \<Rightarrow> error + int list list" where
  "relative_loop st [] acc = Inr acc"
| "relative_loop st (row_idx # rows) acc =
     (let ds_idx = get_row_dataset st row_idx in
      if ds_idx \<noteq> - 1 then
        let relative_row_idx = row_idx - dataset_start_example st ! nat ds_idx;
            deleted_row_offset =
              int (length (filter (\<lambda>r. r \<le> relative_row_idx)
                             (dataset_removed_rows st ! nat ds_idx)))
        in relative_loop st rows
             (acc[nat ds_idx := acc ! nat ds_idx @ [relative_row_idx + deleted_row_offset]])
      else Inl IndexError)"

text \<open>The list comprehension that builds one row mask per dataset.\<close>

fun row_masks :: "state \<Rightarrow> int list list \<Rightarrow> nat list \<Rightarrow> error + int list list" where
  "row_masks st rel [] = Inr []"
| "row_masks st rel (i # is) =
     (case (if length (rel ! i) > 0
            then build_row_mask (rel ! i) (dataset_n_rows st ! i) (int (dataset_pack_size st))
            else Inr []) of
        Inl e \<Rightarrow> Inl e
      | Inr m \<Rightarrow> (case row_masks st rel is of Inl e \<Rightarrow> Inl e | Inr ms \<Rightarrow> Inr (m # ms)))"

definition dataset_row_masks :: "state \<Rightarrow> int list \<Rightarrow> error + int list list" where
  "dataset_row_masks st rows =
     (case relative_loop st (sort rows) (replicate (length (datasets st)) []) of
        Inl e \<Rightarrow> Inl e
      | Inr rel \<Rightarrow> row_masks st rel [0..<length (datasets st)])"

text \<open>\<open>np.sum(block, axis=0)\<close> for a block of \<open>m\<close> columns.\<close>

definition col_sums :: "nat \<Rightarrow> int list list \<Rightarrow> int list" where
  "col_sums m block = map (\<lambda>c. sum_list (map (\<lambda>row. row ! c) block)) [0..<m]"

text \<open>
  \<open>result[lo:hi] += s\<close> on an unsigned array of the given width: the sum is cast back
  to the array's type, which keeps the low bits.
\<close>

definition np_add_slice :: "nat \<Rightarrow> int list \<Rightarrow> nat \<Rightarrow> nat \<Rightarrow> int list \<Rightarrow> error + int list" where
  "np_add_slice bits result lo hi s =
     (let lo' = min lo (length result);
          hi' = min hi (length result);
          len = hi' - lo';
          old = take len (drop lo' result)
      in if length s = len
         then Inr (take lo' result @ map (\<lambda>(a, b). (a + b) mod 2 ^ bits) (zip old s)
                   @ drop (lo' + len) result)
         else if length s = 1
         then Inr (take lo' result @ map (\<lambda>a. (a + hd s) mod 2 ^ bits) old
                   @ drop (lo' + len) result)
         else Inl ValueError)"

text \<open>
  What a call of \<open>sum_rows\<close> accumulates: the result vector and the number of block
  reads it has issued to the backing datasets.
\<close>

record sum_acc =
  acc_result :: "int list"
  acc_reads :: nat

text \<open>The innermost loop body: one row block and one column block of one dataset.\<close>

definition block_step ::
  "state \<Rightarrow> np_dtype \<Rightarrow> dataset \<Rightarrow> int list \<Rightarrow> nat list \<Rightarrow> nat \<Rightarrow> nat
     \<Rightarrow> nat \<times> nat \<Rightarrow> sum_acc \<Rightarrow> error + sum_acc" where
  "block_step st result_dtype dataset row_mask rows_to_load rbs cbs rc a =
     (let row_block = fst rc; col_block = snd rc
      in case read_block dataset
                (take ((row_block + 1) * rbs - row_block * rbs)
                   (drop (row_block * rbs) rows_to_load))
                (col_block * cbs) ((col_block + 1) * cbs) of
           Inl e \<Rightarrow> Inl e
         | Inr block \<Rightarrow>
             (let counted = inplace_popcount (dataset_pack_size st) block row_mask;
                  m = min ((col_block + 1) * cbs) (ds_cols dataset)
                        - min (col_block * cbs) (ds_cols dataset)
              in case np_add_slice (dtype_bits result_dtype) (acc_result a)
                        (col_block * cbs) ((col_block + 1) * cbs) (col_sums m counted) of
                   Inl e \<Rightarrow> Inl e
                 | Inr r \<Rightarrow> Inr \<lparr> acc_result = r, acc_reads = acc_reads a + 1 \<rparr>))"

text \<open>
  The body of the loop over the datasets.  \<open>self.row_block_size\<close> is read only for a
  dataset with a non-empty mask; reading an attribute that was never assigned raises
  AttributeError, and dividing by a block size of 0 raises ZeroDivisionError.
\<close>

definition dataset_step ::
  "state \<Rightarrow> np_dtype \<Rightarrow> int list list \<Rightarrow> nat \<Rightarrow> nat \<Rightarrow> nat \<Rightarrow> sum_acc \<Rightarrow> error + sum_acc" where
  "dataset_step st result_dtype masks cbs n_col_blocks i a =
     (let row_mask = masks ! i in
      if length row_mask = 0 then Inr a
      else
        let rows_to_load = filter (\<lambda>j. row_mask ! j \<noteq> 0) [0..<length row_mask] in
        case row_block_size st of
          None \<Rightarrow> Inl AttributeError
        | Some rbs \<Rightarrow>
            if rbs = 0 then Inl ZeroDivisionError
            else
              let n_row_blocks = nat (ceil_div (int (length rows_to_load)) (int rbs))
              in fold_err
                   (block_step st result_dtype (datasets st ! i) row_mask rows_to_load rbs cbs)
                   (List.product [0..<n_row_blocks] [0..<n_col_blocks]) a)"

record sum_result =
  sr_dtype :: np_dtype
  sr_values :: "int list"
  sr_reads :: nat

text \<open>
  \<open>sum_rows(rows)\<close>: the element type and the values of the returned vector, and the
  number of block reads the call made.
\<close>

definition sum_rows :: "state \<Rightarrow> int list \<Rightarrow> error + sum_result" where
  "sum_rows st rows =
     (let result_dtype = column_sum_dtype (length rows);
          result = replicate (dataset_n_cols st) 0
      in case dataset_row_masks st rows of
           Inl e \<Rightarrow> Inl e
         | Inr masks \<Rightarrow>
             (case col_block_size st of
                None \<Rightarrow> Inl AttributeError
              | Some cbs \<Rightarrow>
                  if cbs = 0 then Inl ZeroDivisionError
                  else
                    let n_col_blocks = nat (ceil_div (int (dataset_n_cols st)) (int cbs))
                    in case fold_err (dataset_step st result_dtype masks cbs n_col_blocks)
                              [0..<length (datasets st)]
                              \<lparr> acc_result = result, acc_reads = 0 \<rparr> of
                         Inl e \<Rightarrow> Inl e
                       | Inr a \<Rightarrow>
                           Inr \<lparr> sr_dtype = result_dtype, sr_values = acc_result a,
                                 sr_reads = acc_reads a \<rparr>))"

section \<open>Reachable objects and their invariant\<close>

text \<open>
  The arguments a caller may construct the object from: one declared row count per
  dataset, not negative and not beyond the rows the dataset physically stores
  (\<open>shape[0]\<close> packed rows of as many bits as the word type has).
\<close>

definition valid_args :: "dataset list \<Rightarrow> int list \<Rightarrow> bool" where
  "valid_args dss n_rows =
     list_all2 (\<lambda>d n. 0 \<le> n \<and> n \<le> int (length (ds_data d) * dtype_bits (ds_dtype d)))
       dss n_rows"

text \<open>
  The objects a program can hold: built by the constructor from valid arguments, then
  changed by any number of \<open>remove_rows\<close> calls that returned normally.
\<close>

inductive reachable :: "state \<Rightarrow> bool" where
  constructed:
    "init dss n_rows rbs cbs = Inr st \<Longrightarrow> valid_args dss n_rows \<Longrightarrow> reachable st"
| removed:
    "reachable st \<Longrightarrow> remove_rows st rows = (None, st') \<Longrightarrow> reachable st'"

text \<open>What the second loop of \<open>remove_rows\<close> leaves in entry \<open>i\<close> of the two lists.\<close>

definition merged_rows :: "state \<Rightarrow> int list list \<Rightarrow> nat \<Rightarrow> int list" where
  "merged_rows st new i =
     (if new ! i \<noteq> [] then sort (remdups (dataset_removed_rows st ! i @ new ! i))
      else dataset_removed_rows st ! i)"

definition merged_n_rows :: "state \<Rightarrow> int list list \<Rightarrow> nat \<Rightarrow> int" where
  "merged_n_rows st new i =
     (if new ! i \<noteq> [] then dataset_initial_n_rows st ! i - int (length (merged_rows st new i))
      else dataset_n_rows st ! i)"

text \<open>The invariant of reachable objects.\<close>

definition wf_state :: "state \<Rightarrow> bool" where
  "wf_state st \<longleftrightarrow>
     (let n = length (datasets st) in
      0 < n \<and>
      length (dataset_initial_n_rows st) = n \<and> length (dataset_n_rows st) = n \<and>
      length (dataset_removed_rows st) = n \<and>
      length (dataset_stop_example st) = n \<and> length (dataset_start_example st) = n \<and>
      (\<forall>i<n. 0 \<le> dataset_initial_n_rows st ! i \<and>
             sorted (dataset_removed_rows st ! i) \<and> distinct (dataset_removed_rows st ! i) \<and>
             (\<forall>r\<in>set (dataset_removed_rows st ! i). 0 \<le> r \<and> r < dataset_initial_n_rows st ! i) \<and>
             dataset_n_rows st ! i =
               dataset_initial_n_rows st ! i - int (length (dataset_removed_rows st ! i)) \<and>
             dataset_initial_n_rows st ! i
               \<le> int (length (ds_data (datasets st ! i)) * dataset_pack_size st)) \<and>
      (\<forall>i<n. dataset_start_example st ! i = (\<Sum>j<i. dataset_n_rows st ! j) \<and>
             dataset_stop_example st ! i = (\<Sum>j<Suc i. dataset_n_rows st ! j)) \<and>
      total_n_rows st = (\<Sum>j<n. dataset_n_rows st ! j))"

text \<open>
  The row of its dataset that \<open>sum_rows\<close> addresses for a global row: the index relative
  to the dataset's start plus the number of removed rows that are at most that index.
\<close>

definition physical_row :: "state \<Rightarrow> int \<Rightarrow> int" where
  "physical_row st row_idx =
     (let d = nat (get_row_dataset st row_idx);
          relative_row_idx = row_idx - dataset_start_example st ! d
      in relative_row_idx
         + int (length (filter (\<lambda>r. r \<le> relative_row_idx) (dataset_removed_rows st ! d))))"

text \<open>
  The physical rows of dataset \<open>i\<close> that are still part of the matrix: those below the
  declared row count that are not removed, in ascending order; the unpacked bits of a
  column of that dataset; and the bits of the kept rows.
\<close>

definition kept_rows :: "state \<Rightarrow> nat \<Rightarrow> nat list" where
  "kept_rows st i =
     filter (\<lambda>p. int p \<notin> set (dataset_removed_rows st ! i))
       [0..<nat (dataset_initial_n_rows st ! i)]"

definition unpacked_column :: "state \<Rightarrow> nat \<Rightarrow> nat \<Rightarrow> bool list" where
  "unpacked_column st column i =
     unpack_binary_bytes_from_ints (dataset_pack_size st)
       (map (\<lambda>row. row ! column) (ds_data (datasets st ! i)))"

definition kept_values :: "state \<Rightarrow> nat \<Rightarrow> nat \<Rightarrow> bool list" where
  "kept_values st column i = map (\<lambda>p. unpacked_column st column i ! p) (kept_rows st i)"

text \<open>All datasets have the column count the object records.\<close>

definition cols_ok :: "state \<Rightarrow> bool" where
  "cols_ok st \<longleftrightarrow> (\<forall>d\<in>set (datasets st). ds_cols d = dataset_n_cols st)"

section \<open>Concrete objects\<close>

text \<open>
  Two datasets of one packed row of 32-bit words and two columns, three declared rows
  each: column 0 holds the bits 1, 0, 1 and column 1 the bits 1, 1, 0.
\<close>

definition ex_dataset :: dataset where
  "ex_dataset = \<lparr> ds_cols = 2, ds_dtype = uint32, ds_chunks = Some (1, 1),
                  ds_data = [[5 * 2 ^ 29, 3 * 2 ^ 30]] \<rparr>"

definition ex_state :: state where
  "ex_state = \<lparr> datasets = [ex_dataset, ex_dataset],
       dataset_initial_n_rows = [3, 3], dataset_n_rows = [3, 3],
       initial_total_n_rows = 6, total_n_rows = 6, dataset_n_cols = 2,
       dataset_dtype = uint32, dataset_removed_rows = [[], []],
       row_block_size = Some 1, col_block_size = Some 1,
       dataset_stop_example = [3, 6], dataset_start_example = [0, 3],
       dataset_pack_size = 32 \<rparr>"

text \<open>The same object after \<open>remove_rows([1])\<close>.\<close>

definition ex_state_removed :: state where
  "ex_state_removed = \<lparr> datasets = [ex_dataset, ex_dataset],
       dataset_initial_n_rows = [3, 3], dataset_n_rows = [2, 3],
       initial_total_n_rows = 6, total_n_rows = 5, dataset_n_cols = 2,
       dataset_dtype = uint32, dataset_removed_rows = [[1], []],
       row_block_size = Some 1, col_block_size = Some 1,
       dataset_stop_example = [2, 5], dataset_start_example = [0, 2],
       dataset_pack_size = 32 \<rparr>"

text \<open>The same object after \<open>remove_rows([0, 1])\<close> instead.\<close>

definition ex_state_removed2 :: state where
  "ex_state_removed2 = ex_state \<lparr> dataset_n_rows := [1, 3], total_n_rows := 4,
       dataset_removed_rows := [[0, 1], []],
       dataset_stop_example := [1, 4], dataset_start_example := [0, 1] \<rparr>"

text \<open>The object the constructor returns when both block sizes are passed as 1.\<close>

definition ex_state_override :: state where
  "ex_state_override = ex_state \<lparr> row_block_size := None, col_block_size := None \<rparr>"

text \<open>
  One dataset of two packed rows and one column, 33 declared rows: the bits of the
  physical rows 0 and 32 are set.  Then the same object after \<open>remove_rows([0])\<close>.
\<close>

definition ex_wide_dataset :: dataset where
  "ex_wide_dataset = \<lparr> ds_cols = 1, ds_dtype = uint32, ds_chunks = Some (1, 1),
                       ds_data = [[2 ^ 31], [2 ^ 31]] \<rparr>"

definition ex_wide_state :: state where
  "ex_wide_state = \<lparr> datasets = [ex_wide_dataset],
       dataset_initial_n_rows = [33], dataset_n_rows = [33],
       initial_total_n_rows = 33, total_n_rows = 33, dataset_n_cols = 1,
       dataset_dtype = uint32, dataset_removed_rows = [[]],
       row_block_size = Some 1, col_block_size = Some 1,
       dataset_stop_example = [33], dataset_start_example = [0],
       dataset_pack_size = 32 \<rparr>"

definition ex_wide_removed :: state where
  "ex_wide_removed = ex_wide_state \<lparr> dataset_n_rows := [32], total_n_rows := 32,
       dataset_removed_rows := [[0]], dataset_stop_example := [32] \<rparr>"

text \<open>The object the constructor returns when only the column block size is passed.\<close>

definition ex_state_col_override :: state where
  "ex_state_col_override = ex_state \<lparr> col_block_size := None \<rparr>"

text \<open>
  One dataset of eight packed rows and one column with every bit set, 256 declared rows;
  and a request of 39 distinct rows: the 32 rows of the first packed row and the first
  row of each other packed row.
\<close>

definition ex_full_dataset :: dataset where
  "ex_full_dataset = \<lparr> ds_cols = 1, ds_dtype = uint32, ds_chunks = Some (1, 1),
                       ds_data = replicate 8 [2 ^ 32 - 1] \<rparr>"

definition ex_full_state :: state where
  "ex_full_state = \<lparr> datasets = [ex_full_dataset],
       dataset_initial_n_rows = [256], dataset_n_rows = [256],
       initial_total_n_rows = 256, total_n_rows = 256, dataset_n_cols = 1,
       dataset_dtype = uint32, dataset_removed_rows = [[]],
       row_block_size = Some 1, col_block_size = Some 1,
       dataset_stop_example = [256], dataset_start_example = [0],
       dataset_pack_size = 32 \<rparr>"

definition ex_full_rows :: "int list" where
  "ex_full_rows = map int [0..<32] @ [32, 64, 96, 128, 160, 192, 224]"

section \<open>Properties\<close>

subsection \<open>The second loop of remove_rows in closed form\<close>

lemma remove_step_frame:
  "datasets (remove_step new i st) = datasets st"
  "dataset_initial_n_rows (remove_step new i st) = dataset_initial_n_rows st"
  "initial_total_n_rows (remove_step new i st) = initial_total_n_rows st"
  "total_n_rows (remove_step new i st) = total_n_rows st"
  "dataset_n_cols (remove_step new i st) = dataset_n_cols st"
  "dataset_dtype (remove_step new i st) = dataset_dtype st"
  "row_block_size (remove_step new i st) = row_block_size st"
  "col_block_size (remove_step new i st) = col_block_size st"
  "dataset_pack_size (remove_step new i st) = dataset_pack_size st"
  by (simp_all add: remove_step_def Let_def)

lemma remove_fold_frame:
  "datasets (fold (remove_step new) is st) = datasets st"
  "dataset_initial_n_rows (fold (remove_step new) is st) = dataset_initial_n_rows st"
  "initial_total_n_rows (fold (remove_step new) is st) = initial_total_n_rows st"
  "total_n_rows (fold (remove_step new) is st) = total_n_rows st"
  "dataset_n_cols (fold (remove_step new) is st) = dataset_n_cols st"
  "dataset_dtype (fold (remove_step new) is st) = dataset_dtype st"
  "row_block_size (fold (remove_step new) is st) = row_block_size st"
  "col_block_size (fold (remove_step new) is st) = col_block_size st"
  "dataset_pack_size (fold (remove_step new) is st) = dataset_pack_size st"
  by (induction "is" arbitrary: st; simp add: remove_step_frame)+

lemma remove_step_lengths:
  "length (dataset_removed_rows (remove_step new i st)) = length (dataset_removed_rows st)"
  "length (dataset_n_rows (remove_step new i st)) = length (dataset_n_rows st)"
  "length (dataset_stop_example (remove_step new i st)) = length (dataset_stop_example st)"
  "length (dataset_start_example (remove_step new i st)) = length (dataset_start_example st)"
  by (simp_all add: remove_step_def Let_def)

lemma remove_fold_lengths:
  "length (dataset_removed_rows (fold (remove_step new) is st)) = length (dataset_removed_rows st)"
  "length (dataset_n_rows (fold (remove_step new) is st)) = length (dataset_n_rows st)"
  "length (dataset_stop_example (fold (remove_step new) is st)) = length (dataset_stop_example st)"
  "length (dataset_start_example (fold (remove_step new) is st)) = length (dataset_start_example st)"
  by (induction "is" arbitrary: st; simp add: remove_step_lengths)+

lemma remove_step_removed:
  assumes "i < length (dataset_removed_rows st)"
  shows "dataset_removed_rows (remove_step new k st) ! i =
           (if i = k then merged_rows st new k else dataset_removed_rows st ! i)"
  using assms by (simp add: remove_step_def Let_def merged_rows_def nth_list_update)

lemma remove_step_n_rows:
  assumes "i < length (dataset_n_rows st)"
  shows "dataset_n_rows (remove_step new k st) ! i =
           (if i = k then merged_n_rows st new k else dataset_n_rows st ! i)"
  using assms
  by (simp add: remove_step_def Let_def merged_n_rows_def merged_rows_def nth_list_update)

lemma remove_step_stop:
  assumes "i < length (dataset_stop_example st)" "k < length (dataset_n_rows st)"
  shows "dataset_stop_example (remove_step new k st) ! i =
           (if i = k
            then merged_n_rows st new k + (if k = 0 then 0 else dataset_stop_example st ! (k - 1))
            else dataset_stop_example st ! i)"
  using assms
  by (auto simp add: remove_step_def Let_def merged_n_rows_def merged_rows_def nth_list_update)

lemma remove_step_start:
  assumes "i < length (dataset_start_example st)"
  shows "dataset_start_example (remove_step new k st) ! i =
           (if i = k
            then (if k = 0 then 0 else dataset_stop_example st ! (k - 1))
            else dataset_start_example st ! i)"
  using assms
  by (auto simp add: remove_step_def Let_def nth_list_update)

lemma merged_rows_cong:
  "dataset_removed_rows st' ! k = dataset_removed_rows st ! k \<Longrightarrow>
   merged_rows st' new k = merged_rows st new k"
  by (simp add: merged_rows_def)

lemma merged_n_rows_cong:
  "dataset_removed_rows st' ! k = dataset_removed_rows st ! k \<Longrightarrow>
   dataset_n_rows st' ! k = dataset_n_rows st ! k \<Longrightarrow>
   dataset_initial_n_rows st' = dataset_initial_n_rows st \<Longrightarrow>
   merged_n_rows st' new k = merged_n_rows st new k"
  by (simp add: merged_n_rows_def merged_rows_def)

lemma remove_fold_char:
  assumes len: "length (dataset_removed_rows st) = n" "length (dataset_n_rows st) = n"
               "length (dataset_stop_example st) = n" "length (dataset_start_example st) = n"
  shows "k \<le> n \<Longrightarrow>
    (\<forall>i<n. dataset_removed_rows (fold (remove_step new) [0..<k] st) ! i =
              (if i < k then merged_rows st new i else dataset_removed_rows st ! i)) \<and>
    (\<forall>i<n. dataset_n_rows (fold (remove_step new) [0..<k] st) ! i =
              (if i < k then merged_n_rows st new i else dataset_n_rows st ! i)) \<and>
    (\<forall>i<n. dataset_stop_example (fold (remove_step new) [0..<k] st) ! i =
              (if i < k then (\<Sum>j<Suc i. merged_n_rows st new j)
               else dataset_stop_example st ! i)) \<and>
    (\<forall>i<n. dataset_start_example (fold (remove_step new) [0..<k] st) ! i =
              (if i < k then (\<Sum>j<i. merged_n_rows st new j)
               else dataset_start_example st ! i))"
proof (induction k)
  case 0
  then show ?case by simp
next
  case (Suc k)
  let ?S = "fold (remove_step new) [0..<k] st"
  have k: "k < n" using Suc.prems by simp
  have lenS: "length (dataset_removed_rows ?S) = n" "length (dataset_n_rows ?S) = n"
             "length (dataset_stop_example ?S) = n" "length (dataset_start_example ?S) = n"
    by (simp_all add: remove_fold_lengths len)
  have IH1: "\<And>i. i < n \<Longrightarrow> dataset_removed_rows ?S ! i =
              (if i < k then merged_rows st new i else dataset_removed_rows st ! i)"
   and IH2: "\<And>i. i < n \<Longrightarrow> dataset_n_rows ?S ! i =
              (if i < k then merged_n_rows st new i else dataset_n_rows st ! i)"
   and IH3: "\<And>i. i < n \<Longrightarrow> dataset_stop_example ?S ! i =
              (if i < k then (\<Sum>j<Suc i. merged_n_rows st new j)
               else dataset_stop_example st ! i)"
   and IH4: "\<And>i. i < n \<Longrightarrow> dataset_start_example ?S ! i =
              (if i < k then (\<Sum>j<i. merged_n_rows st new j)
               else dataset_start_example st ! i)"
    using Suc.IH k by simp_all
  have step: "fold (remove_step new) [0..<Suc k] st = remove_step new k ?S"
    by simp
  have mr: "merged_rows ?S new k = merged_rows st new k"
    by (rule merged_rows_cong) (simp add: IH1 k)
  have mn: "merged_n_rows ?S new k = merged_n_rows st new k"
    by (rule merged_n_rows_cong) (simp_all add: IH1 IH2 k remove_fold_frame)
  have prev: "k \<noteq> 0 \<Longrightarrow> dataset_stop_example ?S ! (k - 1) = (\<Sum>j<k. merged_n_rows st new j)"
    using IH3 [of "k - 1"] k by simp
  have c1: "\<forall>i<n. dataset_removed_rows (remove_step new k ?S) ! i =
              (if i < Suc k then merged_rows st new i else dataset_removed_rows st ! i)"
    by (auto simp add: remove_step_removed lenS mr IH1)
  have c2: "\<forall>i<n. dataset_n_rows (remove_step new k ?S) ! i =
              (if i < Suc k then merged_n_rows st new i else dataset_n_rows st ! i)"
    by (auto simp add: remove_step_n_rows lenS mn IH2)
  have c3: "\<forall>i<n. dataset_stop_example (remove_step new k ?S) ! i =
              (if i < Suc k then (\<Sum>j<Suc i. merged_n_rows st new j)
               else dataset_stop_example st ! i)"
  proof (intro allI impI)
    fix i assume i: "i < n"
    show "dataset_stop_example (remove_step new k ?S) ! i =
              (if i < Suc k then (\<Sum>j<Suc i. merged_n_rows st new j)
               else dataset_stop_example st ! i)"
    proof (cases "i = k")
      case True
      then show ?thesis
        using prev i k mn lenS by (cases "k = 0") (simp_all add: remove_step_stop len)
    next
      case False
      then show ?thesis
        using i by (simp add: remove_step_stop lenS k IH3 del: sum.lessThan_Suc) 
    qed
  qed
  have c4: "\<forall>i<n. dataset_start_example (remove_step new k ?S) ! i =
              (if i < Suc k then (\<Sum>j<i. merged_n_rows st new j)
               else dataset_start_example st ! i)"
  proof (intro allI impI)
    fix i assume i: "i < n"
    show "dataset_start_example (remove_step new k ?S) ! i =
              (if i < Suc k then (\<Sum>j<i. merged_n_rows st new j)
               else dataset_start_example st ! i)"
    proof (cases "i = k")
      case True
      then show ?thesis
        using prev i k lenS by (cases "k = 0") (simp_all add: remove_step_start len)
    next
      case False
      then show ?thesis
        using i by (simp add: remove_step_start lenS IH4)
    qed
  qed
  show ?case
    unfolding step using c1 c2 c3 c4 by blast
qed

subsection \<open>The constructor's offset loops in closed form\<close>

lemma init_stop_loop_char:
  "k \<le> n \<Longrightarrow>
   length (fold (\<lambda>i stop. stop[i := (if i = 0 then 0 else stop ! (i - 1)) + n_rows ! i])
             [0..<k] (replicate n (0::int))) = n \<and>
   (\<forall>i<n. fold (\<lambda>i stop. stop[i := (if i = 0 then 0 else stop ! (i - 1)) + n_rows ! i])
             [0..<k] (replicate n (0::int)) ! i =
           (if i < k then (\<Sum>j<Suc i. n_rows ! j) else 0))"
proof (induction k)
  case 0
  then show ?case by simp
next
  case (Suc k)
  let ?f = "\<lambda>i stop. stop[i := (if i = 0 then 0 else stop ! (i - 1)) + n_rows ! i]"
  let ?S = "fold ?f [0..<k] (replicate n (0::int))"
  have k: "k < n" using Suc.prems by simp
  have lenS: "length ?S = n" using Suc.IH k by simp
  have IH: "\<And>i. i < n \<Longrightarrow> ?S ! i = (if i < k then (\<Sum>j<Suc i. n_rows ! j) else 0)"
    using Suc.IH k by simp
  have step: "fold ?f [0..<Suc k] (replicate n (0::int)) = ?f k ?S" by simp
  have prev: "k \<noteq> 0 \<Longrightarrow> ?S ! (k - 1) = (\<Sum>j<k. n_rows ! j)"
    using IH [of "k - 1"] k by simp
  have "\<forall>i<n. ?f k ?S ! i = (if i < Suc k then (\<Sum>j<Suc i. n_rows ! j) else 0)"
  proof (intro allI impI)
    fix i assume i: "i < n"
    show "?f k ?S ! i = (if i < Suc k then (\<Sum>j<Suc i. n_rows ! j) else 0)"
    proof (cases "i = k")
      case True
      then show ?thesis using prev k lenS by (cases "k = 0") simp_all
    next
      case False
      then show ?thesis using i lenS IH [OF i] by (simp del: sum.lessThan_Suc)
    qed
  qed
  moreover have "length (?f k ?S) = n" using lenS by simp
  ultimately show ?case unfolding step by blast
qed

lemma init_stop_loop_nth:
  "i < n \<Longrightarrow> init_stop_loop n n_rows ! i = (\<Sum>j<Suc i. n_rows ! j)"
  using init_stop_loop_char [of n n n_rows] by (simp add: init_stop_loop_def)

lemma init_stop_loop_length: "length (init_stop_loop n n_rows) = n"
  using init_stop_loop_char [of n n n_rows] by (simp add: init_stop_loop_def)

lemma init_start_loop_char:
  "k \<le> n \<Longrightarrow>
   length (fold (\<lambda>i start. start[i := (if i = 0 then 0 else stop ! (i - 1))])
             [0..<k] (replicate n (0::int))) = n \<and>
   (\<forall>i<n. fold (\<lambda>i start. start[i := (if i = 0 then 0 else stop ! (i - 1))])
             [0..<k] (replicate n (0::int)) ! i =
           (if i < k then (if i = 0 then 0 else stop ! (i - 1)) else 0))"
proof (induction k)
  case 0
  then show ?case by simp
next
  case (Suc k)
  then show ?case by (auto simp add: nth_list_update)
qed

lemma init_start_loop_nth:
  "i < n \<Longrightarrow> init_start_loop n stop ! i = (if i = 0 then 0 else stop ! (i - 1))"
  using init_start_loop_char [of n n stop] by (simp add: init_start_loop_def)

lemma init_start_loop_length: "length (init_start_loop n stop) = n"
  using init_start_loop_char [of n n stop] by (simp add: init_start_loop_def)

subsection \<open>Well-formed objects\<close>

lemma sum_list_lessThan: "sum_list xs = (\<Sum>j<length xs. xs ! j)"
  by (simp add: sum_list_sum_nth atLeast0LessThan)

lemma distinct_bounded_length:
  fixes xs :: "int list"
  assumes "distinct xs" "\<forall>r\<in>set xs. 0 \<le> r \<and> r < m" "0 \<le> m"
  shows "int (length xs) \<le> m"
proof -
  have "set xs \<subseteq> {0..<m}" using assms(2) by auto
  then have "card (set xs) \<le> card {0..<m}" by (intro card_mono) simp_all
  then show ?thesis using assms(1,3) by (simp add: distinct_card)
qed

lemma init_wf:
  assumes "init dss n_rows rbs cbs = Inr st" "valid_args dss n_rows"
  shows "wf_state st"
proof -
  obtain d0 rest where dss: "dss = d0 # rest"
    using assms(1) by (cases dss) (simp_all add: init_def)
  have pos: "0 < length dss" by (simp add: dss)
  have len: "length n_rows = length dss"
    using assms(2) by (simp add: valid_args_def list_all2_lengthD)
  have same: "list_all (\<lambda>d. ds_cols d = ds_cols d0 \<and> ds_dtype d = ds_dtype d0) rest"
    and dt: "ds_dtype d0 = uint32 \<or> ds_dtype d0 = uint64"
    using assms(1) unfolding init_def dss by (auto split: if_splits)
  have st: "st = \<lparr> datasets = dss,
                  dataset_initial_n_rows = n_rows,
                  dataset_n_rows = n_rows,
                  initial_total_n_rows = sum_list n_rows,
                  total_n_rows = sum_list n_rows,
                  dataset_n_cols = ds_cols d0,
                  dataset_dtype = ds_dtype d0,
                  dataset_removed_rows = replicate (length dss) [],
                  row_block_size =
                    (if rbs = None then map_option fst (ds_chunks d0) else None),
                  col_block_size =
                    (if cbs = None then map_option snd (ds_chunks d0) else None),
                  dataset_stop_example = init_stop_loop (length dss) n_rows,
                  dataset_start_example =
                    init_start_loop (length dss) (init_stop_loop (length dss) n_rows),
                  dataset_pack_size = (if ds_dtype d0 = uint32 then 32 else 64) \<rparr>"
    using assms(1) unfolding init_def dss by (auto split: if_splits simp: Let_def)
  have dtypes: "\<And>i. i < length dss \<Longrightarrow> ds_dtype (dss ! i) = ds_dtype d0"
    using same unfolding dss by (auto simp: list_all_iff nth_Cons split: nat.splits)
  have pack: "\<And>i. i < length dss \<Longrightarrow> dtype_bits (ds_dtype (dss ! i)) = dataset_pack_size st"
    using dtypes dt by (auto simp: st)
  have cap: "\<And>i. i < length dss \<Longrightarrow>
      0 \<le> n_rows ! i \<and> n_rows ! i \<le> int (length (ds_data (dss ! i)) * dataset_pack_size st)"
    using assms(2) pack unfolding valid_args_def by (auto simp: list_all2_conv_all_nth)
  have start: "\<And>i. i < length dss \<Longrightarrow>
      init_start_loop (length dss) (init_stop_loop (length dss) n_rows) ! i = (\<Sum>j<i. n_rows ! j)"
  proof -
    fix i assume i: "i < length dss"
    show "init_start_loop (length dss) (init_stop_loop (length dss) n_rows) ! i = (\<Sum>j<i. n_rows ! j)"
    proof (cases i)
      case 0
      then show ?thesis using i by (simp add: init_start_loop_nth)
    next
      case (Suc m)
      then show ?thesis using i by (simp add: init_start_loop_nth init_stop_loop_nth)
    qed
  qed
  show ?thesis
    unfolding wf_state_def Let_def
    using cap start len pos
    by (simp add: st init_stop_loop_length init_start_loop_length init_stop_loop_nth
         sum_list_lessThan)
qed

subsection \<open>Locating rows\<close>

lemma get_row_dataset_found:
  assumes "get_row_dataset st r \<noteq> - 1"
  shows "0 \<le> get_row_dataset st r \<and> nat (get_row_dataset st r) < length (datasets st) \<and>
         dataset_start_example st ! nat (get_row_dataset st r) \<le> r \<and>
         r < dataset_stop_example st ! nat (get_row_dataset st r)"
  using assms unfolding get_row_dataset_def
  by (auto split: option.splits simp: find_Some_iff)

lemma get_row_dataset_none:
  assumes "\<forall>i<length (datasets st).
             \<not> (dataset_start_example st ! i \<le> r \<and> r < dataset_stop_example st ! i)"
  shows "get_row_dataset st r = - 1"
proof -
  have "find (\<lambda>i. dataset_stop_example st ! i > r \<and> r \<ge> dataset_start_example st ! i)
          [0..<length (datasets st)] = None"
    using assms by (auto simp: find_None_iff)
  then show ?thesis by (simp add: get_row_dataset_def)
qed


lemma locate_loop_bad_row:
  assumes "\<exists>r\<in>set rows. get_row_dataset st r = - 1"
  shows "locate_loop st rows acc = Inl IndexError"
  using assms by (induction rows arbitrary: acc) (auto simp: Let_def)

lemma locate_loop_props:
  assumes "locate_loop st rows acc = Inr new"
    and "length acc = length (datasets st)"
    and "\<forall>i<length (datasets st). \<forall>x\<in>set (acc ! i).
            0 \<le> x \<and> x < dataset_stop_example st ! i - dataset_start_example st ! i"
  shows "length new = length (datasets st) \<and>
         (\<forall>i<length (datasets st). \<forall>x\<in>set (new ! i).
            0 \<le> x \<and> x < dataset_stop_example st ! i - dataset_start_example st ! i)"
  using assms
proof (induction rows arbitrary: acc)
  case Nil
  then show ?case by simp
next
  case (Cons r rows)
  let ?d = "get_row_dataset st r"
  have found: "?d \<noteq> - 1" using Cons.prems(1) by (auto simp: Let_def split: if_splits)
  note f = get_row_dataset_found [OF found]
  let ?acc = "acc[nat ?d := acc ! nat ?d @ [r - dataset_start_example st ! nat ?d]]"
  have rec: "locate_loop st rows ?acc = Inr new"
    using Cons.prems(1) found by (simp add: Let_def)
  have len: "length ?acc = length (datasets st)" using Cons.prems(2) by simp
  have bnd: "\<forall>i<length (datasets st). \<forall>x\<in>set (?acc ! i).
            0 \<le> x \<and> x < dataset_stop_example st ! i - dataset_start_example st ! i"
  proof (intro allI impI ballI)
    fix i x assume i: "i < length (datasets st)" and x: "x \<in> set (?acc ! i)"
    show "0 \<le> x \<and> x < dataset_stop_example st ! i - dataset_start_example st ! i"
    proof (cases "i = nat ?d")
      case True
      then have "x \<in> set (acc ! i) \<or> x = r - dataset_start_example st ! i"
        using x i Cons.prems(2) by auto
      then show ?thesis using Cons.prems(3) i f True by auto
    next
      case False
      then have "x \<in> set (acc ! i)" using x by simp
      then show ?thesis using Cons.prems(3) i by blast
    qed
  qed
  show ?case by (rule Cons.IH [OF rec len bnd])
qed

subsection \<open>Removal keeps objects well formed\<close>

lemma wf_stop_start:
  assumes "wf_state st" "i < length (datasets st)"
  shows "dataset_stop_example st ! i - dataset_start_example st ! i = dataset_n_rows st ! i"
  using assms unfolding wf_state_def Let_def by simp

lemma wf_n_rows_nonneg:
  assumes "wf_state st" "i < length (datasets st)"
  shows "0 \<le> dataset_n_rows st ! i"
proof -
  have "int (length (dataset_removed_rows st ! i)) \<le> dataset_initial_n_rows st ! i"
    using assms unfolding wf_state_def Let_def
    by (intro distinct_bounded_length) auto
  then show ?thesis using assms unfolding wf_state_def Let_def by simp
qed

lemma wf_n_rows_le_initial:
  assumes "wf_state st" "i < length (datasets st)"
  shows "dataset_n_rows st ! i \<le> dataset_initial_n_rows st ! i"
  using assms unfolding wf_state_def Let_def by simp

lemma remove_rows_success:
  assumes "remove_rows st rows = (None, st')"
  obtains new where
    "locate_loop st rows (replicate (length (datasets st)) []) = Inr new"
    "st' = (fold (remove_step new) [0..<length (datasets st)] st)
             \<lparr> total_n_rows :=
                 sum_list (dataset_n_rows (fold (remove_step new) [0..<length (datasets st)] st)) \<rparr>"
  using assms unfolding remove_rows_def by (auto split: sum.splits simp: Let_def)

lemma remove_rows_wf:
  assumes wf: "wf_state st" and rm: "remove_rows st rows = (None, st')"
  shows "wf_state st'"
proof -
  let ?n = "length (datasets st)"
  obtain new where loc: "locate_loop st rows (replicate ?n []) = Inr new"
    and st': "st' = (fold (remove_step new) [0..<?n] st)
             \<lparr> total_n_rows := sum_list (dataset_n_rows (fold (remove_step new) [0..<?n] st)) \<rparr>"
    using rm by (rule remove_rows_success)
  let ?S = "fold (remove_step new) [0..<?n] st"
  have lens: "length (dataset_removed_rows st) = ?n" "length (dataset_n_rows st) = ?n"
             "length (dataset_stop_example st) = ?n" "length (dataset_start_example st) = ?n"
             "length (dataset_initial_n_rows st) = ?n" "0 < ?n"
    using wf unfolding wf_state_def Let_def by simp_all
  have newp: "length new = ?n \<and>
         (\<forall>i<?n. \<forall>x\<in>set (new ! i).
            0 \<le> x \<and> x < dataset_stop_example st ! i - dataset_start_example st ! i)"
    by (rule locate_loop_props [OF loc]) simp_all
  then have newb: "\<And>i x. i < ?n \<Longrightarrow> x \<in> set (new ! i) \<Longrightarrow> 0 \<le> x \<and> x < dataset_initial_n_rows st ! i"
    using wf_stop_start [OF wf] wf_n_rows_le_initial [OF wf] by fastforce
  note ch = remove_fold_char [OF lens(1-4), of ?n new, simplified]
  have rem: "\<And>i. i < ?n \<Longrightarrow> dataset_removed_rows ?S ! i = merged_rows st new i"
    and nr: "\<And>i. i < ?n \<Longrightarrow> dataset_n_rows ?S ! i = merged_n_rows st new i"
    and stop: "\<And>i. i < ?n \<Longrightarrow> dataset_stop_example ?S ! i = (\<Sum>j<Suc i. merged_n_rows st new j)"
    and start: "\<And>i. i < ?n \<Longrightarrow> dataset_start_example ?S ! i = (\<Sum>j<i. merged_n_rows st new j)"
    using ch by simp_all
  have old: "\<And>i. i < ?n \<Longrightarrow> 0 \<le> dataset_initial_n_rows st ! i \<and>
             sorted (dataset_removed_rows st ! i) \<and> distinct (dataset_removed_rows st ! i) \<and>
             (\<forall>r\<in>set (dataset_removed_rows st ! i). 0 \<le> r \<and> r < dataset_initial_n_rows st ! i) \<and>
             dataset_n_rows st ! i =
               dataset_initial_n_rows st ! i - int (length (dataset_removed_rows st ! i)) \<and>
             dataset_initial_n_rows st ! i
               \<le> int (length (ds_data (datasets st ! i)) * dataset_pack_size st)"
    using wf unfolding wf_state_def Let_def by simp
  have m1: "\<And>i. i < ?n \<Longrightarrow> sorted (merged_rows st new i) \<and> distinct (merged_rows st new i) \<and>
             (\<forall>r\<in>set (merged_rows st new i). 0 \<le> r \<and> r < dataset_initial_n_rows st ! i)"
    using old newb by (auto simp: merged_rows_def)
  have m2: "\<And>i. i < ?n \<Longrightarrow> merged_n_rows st new i =
               dataset_initial_n_rows st ! i - int (length (merged_rows st new i))"
    using old by (auto simp: merged_n_rows_def merged_rows_def)
  have sumeq: "(\<Sum>j<?n. dataset_n_rows ?S ! j) = (\<Sum>j<?n. merged_n_rows st new j)"
    by (rule sum.cong) (simp_all add: nr)
  have sums: "\<And>i. i < ?n \<Longrightarrow> (\<Sum>j<i. dataset_n_rows ?S ! j) = (\<Sum>j<i. merged_n_rows st new j)"
    by (rule sum.cong) (simp_all add: nr)
  have sums': "\<And>i. i < ?n \<Longrightarrow> (\<Sum>j<Suc i. dataset_n_rows ?S ! j) = (\<Sum>j<Suc i. merged_n_rows st new j)"
    by (rule sum.cong) (simp_all add: nr)
  show ?thesis
    unfolding wf_state_def Let_def st'
    using lens old m1 m2 sums sums'
    by (simp add: remove_fold_frame remove_fold_lengths rem nr stop start sum_list_lessThan
          del: sum.lessThan_Suc)
qed

lemma reachable_wf: "reachable st \<Longrightarrow> wf_state st"
  by (induction rule: reachable.induct) (auto intro: init_wf remove_rows_wf)

subsection \<open>The offsets partition the rows\<close>

lemma wf_ranges:
  assumes wf: "wf_state st" and i: "i < length (datasets st)"
  shows "0 \<le> dataset_start_example st ! i"
    and "dataset_start_example st ! i \<le> dataset_stop_example st ! i"
    and "dataset_stop_example st ! i \<le> total_n_rows st"
proof -
  let ?n = "length (datasets st)"
  have nn: "\<And>j. j < ?n \<Longrightarrow> 0 \<le> dataset_n_rows st ! j"
    using wf_n_rows_nonneg [OF wf] by simp
  have start: "dataset_start_example st ! i = (\<Sum>j<i. dataset_n_rows st ! j)"
    and stop: "dataset_stop_example st ! i = (\<Sum>j<Suc i. dataset_n_rows st ! j)"
    and total: "total_n_rows st = (\<Sum>j<?n. dataset_n_rows st ! j)"
    using wf i unfolding wf_state_def Let_def by simp_all
  show "0 \<le> dataset_start_example st ! i"
    unfolding start using nn i by (intro sum_nonneg) simp
  show "dataset_start_example st ! i \<le> dataset_stop_example st ! i"
    unfolding start stop using nn [OF i] by simp
  have "(\<Sum>j\<in>{..<Suc i}. dataset_n_rows st ! j) \<le> (\<Sum>j\<in>{..<?n}. dataset_n_rows st ! j)"
    using i nn by (intro sum_mono2) auto
  then show "dataset_stop_example st ! i \<le> total_n_rows st"
    unfolding stop total .
qed

lemma wf_stop_mono:
  assumes wf: "wf_state st" and ij: "i \<le> j" "j < length (datasets st)"
  shows "dataset_stop_example st ! i \<le> dataset_stop_example st ! j"
proof -
  have nn: "\<And>k. k < length (datasets st) \<Longrightarrow> 0 \<le> dataset_n_rows st ! k"
    using wf_n_rows_nonneg [OF wf] by simp
  have "(\<Sum>k\<in>{..<Suc i}. dataset_n_rows st ! k) \<le> (\<Sum>k\<in>{..<Suc j}. dataset_n_rows st ! k)"
    using ij nn by (intro sum_mono2) auto
  then show ?thesis using wf ij unfolding wf_state_def Let_def by simp
qed

lemma wf_start_Suc:
  assumes wf: "wf_state st" and i: "Suc i < length (datasets st)"
  shows "dataset_start_example st ! Suc i = dataset_stop_example st ! i"
  using assms unfolding wf_state_def Let_def by simp

lemma wf_last_stop:
  assumes wf: "wf_state st"
  shows "dataset_stop_example st ! (length (datasets st) - 1) = total_n_rows st"
proof -
  have "0 < length (datasets st)" using wf unfolding wf_state_def Let_def by simp
  then have "Suc (length (datasets st) - 1) = length (datasets st)" by simp
  then show ?thesis using wf unfolding wf_state_def Let_def
    by (metis \<open>0 < length (datasets st)\<close> diff_less zero_less_one)
qed

lemma wf_row_located:
  assumes wf: "wf_state st" and r: "0 \<le> r" "r < total_n_rows st"
  shows "\<exists>!i. i < length (datasets st) \<and>
               dataset_start_example st ! i \<le> r \<and> r < dataset_stop_example st ! i"
proof -
  let ?n = "length (datasets st)"
  let ?P = "\<lambda>i. i < ?n \<and> r < dataset_stop_example st ! i"
  have pos: "0 < ?n" using wf unfolding wf_state_def Let_def by simp
  have ex: "?P (?n - 1)" using wf_last_stop [OF wf] r pos by simp
  define m where "m = (LEAST i. ?P i)"
  have Pm: "?P m" unfolding m_def using ex by (rule LeastI)
  have least: "\<And>k. ?P k \<Longrightarrow> m \<le> k" unfolding m_def by (rule Least_le)
  have lo: "dataset_start_example st ! m \<le> r"
  proof (cases m)
    case 0
    then show ?thesis using wf pos r unfolding wf_state_def Let_def by simp
  next
    case (Suc k)
    have "\<not> ?P k" using least [of k] Suc by auto
    then have "dataset_stop_example st ! k \<le> r" using Pm Suc by simp
    then show ?thesis using wf_start_Suc [OF wf, of k] Pm Suc by simp
  qed
  show ?thesis
  proof (rule ex1I [of _ m])
    show "m < ?n \<and> dataset_start_example st ! m \<le> r \<and> r < dataset_stop_example st ! m"
      using Pm lo by simp
  next
    fix i assume i: "i < ?n \<and> dataset_start_example st ! i \<le> r \<and> r < dataset_stop_example st ! i"
    then have mi: "m \<le> i" using least by simp
    show "i = m"
    proof (rule ccontr)
      assume "i \<noteq> m"
      then have lt: "m < i" using mi by simp
      then obtain k where k: "i = Suc k" by (cases i) auto
      have "dataset_stop_example st ! m \<le> dataset_stop_example st ! k"
        using wf_stop_mono [OF wf, of m k] lt k i by simp
      also have "\<dots> = dataset_start_example st ! i"
        using wf_start_Suc [OF wf, of k] k i by simp
      finally show False using Pm i by simp
    qed
  qed
qed

lemma ex_state_init: "init [ex_dataset, ex_dataset] [3, 3] None None = Inr ex_state"
  by (simp add: init_def ex_dataset_def ex_state_def init_stop_loop_def init_start_loop_def)

lemma ex_valid_args: "valid_args [ex_dataset, ex_dataset] [3, 3]"
  by (simp add: valid_args_def ex_dataset_def)

lemma ex_state_reachable: "reachable ex_state"
  by (rule reachable.constructed [OF ex_state_init ex_valid_args])

lemma ex_remove: "remove_rows ex_state [1] = (None, ex_state_removed)"
  by (simp add: remove_rows_def ex_state_def ex_state_removed_def get_row_dataset_def
        remove_step_def Let_def)

lemma ex_state_removed_reachable: "reachable ex_state_removed"
  by (rule reachable.removed [OF ex_state_reachable ex_remove])

text \<open>
  C4: after construction and after every successful \<open>remove_rows\<close>, the first start is
  0, every stop is the start plus the current row count, every start is the previous
  stop, the total is the sum of the current row counts, and the ranges partition
  \<open>[0, total_n_rows)\<close>: every row of that interval lies in exactly one range, and every
  range lies inside the interval.
\<close>

theorem offsets_partition:
  assumes "reachable st"
  shows "dataset_start_example st ! 0 = 0 \<and>
    (\<forall>i<length (datasets st).
       dataset_stop_example st ! i = dataset_start_example st ! i + dataset_n_rows st ! i) \<and>
    (\<forall>i. Suc i < length (datasets st) \<longrightarrow>
       dataset_start_example st ! Suc i = dataset_stop_example st ! i) \<and>
    total_n_rows st = sum_list (dataset_n_rows st) \<and>
    (\<forall>r. 0 \<le> r \<and> r < total_n_rows st \<longrightarrow>
       (\<exists>!i. i < length (datasets st) \<and>
              dataset_start_example st ! i \<le> r \<and> r < dataset_stop_example st ! i)) \<and>
    (\<forall>i<length (datasets st). \<forall>r.
       dataset_start_example st ! i \<le> r \<and> r < dataset_stop_example st ! i \<longrightarrow>
       0 \<le> r \<and> r < total_n_rows st)"
proof -
  have wf: "wf_state st" using assms by (rule reachable_wf)
  have a: "dataset_start_example st ! 0 = 0"
    using wf unfolding wf_state_def Let_def by simp
  have b: "\<forall>i<length (datasets st).
       dataset_stop_example st ! i = dataset_start_example st ! i + dataset_n_rows st ! i"
    using wf unfolding wf_state_def Let_def by simp
  have c: "\<forall>i. Suc i < length (datasets st) \<longrightarrow>
       dataset_start_example st ! Suc i = dataset_stop_example st ! i"
    using wf_start_Suc [OF wf] by simp
  have d: "total_n_rows st = sum_list (dataset_n_rows st)"
    using wf unfolding wf_state_def Let_def by (simp add: sum_list_lessThan)
  have e: "\<forall>r. 0 \<le> r \<and> r < total_n_rows st \<longrightarrow>
       (\<exists>!i. i < length (datasets st) \<and>
              dataset_start_example st ! i \<le> r \<and> r < dataset_stop_example st ! i)"
    using wf_row_located [OF wf] by simp
  have f: "\<forall>i<length (datasets st). \<forall>r.
       dataset_start_example st ! i \<le> r \<and> r < dataset_stop_example st ! i \<longrightarrow>
       0 \<le> r \<and> r < total_n_rows st"
    using wf_ranges [OF wf] by fastforce
  show ?thesis using a b c d e f by blast
qed

theorem offsets_partition_witness:
  "reachable ex_state_removed \<and>
   dataset_start_example ex_state_removed = [0, 2] \<and>
   dataset_stop_example ex_state_removed = [2, 5] \<and>
   dataset_n_rows ex_state_removed = [2, 3] \<and>
   dataset_start_example ex_state_removed ! 0 = 0 \<and>
   dataset_stop_example ex_state_removed ! 1
     = dataset_start_example ex_state_removed ! 1 + dataset_n_rows ex_state_removed ! 1 \<and>
   dataset_start_example ex_state_removed ! Suc 0 = dataset_stop_example ex_state_removed ! 0 \<and>
   total_n_rows ex_state_removed = sum_list (dataset_n_rows ex_state_removed) \<and>
   (\<exists>!i. i < length (datasets ex_state_removed) \<and>
          dataset_start_example ex_state_removed ! i \<le> 4 \<and>
          4 < dataset_stop_example ex_state_removed ! i)"
proof -
  note t = offsets_partition [OF ex_state_removed_reachable]
  have len: "length (datasets ex_state_removed) = 2" by (simp add: ex_state_removed_def)
  have tot: "total_n_rows ex_state_removed = 5" by (simp add: ex_state_removed_def)
  have "\<exists>!i. i < length (datasets ex_state_removed) \<and>
          dataset_start_example ex_state_removed ! i \<le> 4 \<and>
          4 < dataset_stop_example ex_state_removed ! i"
    using t tot by simp
  moreover have "dataset_stop_example ex_state_removed ! 1
     = dataset_start_example ex_state_removed ! 1 + dataset_n_rows ex_state_removed ! 1"
    using t len by simp
  moreover have "dataset_start_example ex_state_removed ! Suc 0 = dataset_stop_example ex_state_removed ! 0"
    using t len by simp
  ultimately show ?thesis
    using t ex_state_removed_reachable by (simp add: ex_state_removed_def)
qed

text \<open>
  C3: when at least one of the rows passed to \<open>remove_rows\<close> is negative or not below
  \<open>total_n_rows\<close>, the call raises IndexError and the object is left exactly as it was:
  shape, removed rows, row counts and offsets are all unchanged.
\<close>

theorem remove_rows_out_of_bounds:
  assumes "reachable st" and "\<exists>r\<in>set rows. r < 0 \<or> total_n_rows st \<le> r"
  shows "remove_rows st rows = (Some IndexError, st)"
proof -
  have wf: "wf_state st" using assms(1) by (rule reachable_wf)
  obtain r where r: "r \<in> set rows" "r < 0 \<or> total_n_rows st \<le> r"
    using assms(2) by blast
  have "\<forall>i<length (datasets st).
          \<not> (dataset_start_example st ! i \<le> r \<and> r < dataset_stop_example st ! i)"
    using wf_ranges [OF wf] r(2) by fastforce
  then have "get_row_dataset st r = - 1" by (rule get_row_dataset_none)
  then have "locate_loop st rows (replicate (length (datasets st)) []) = Inl IndexError"
    using r(1) by (intro locate_loop_bad_row) blast
  then show ?thesis by (simp add: remove_rows_def)
qed

theorem remove_rows_out_of_bounds_witness:
  "reachable ex_state_removed \<and> (\<exists>r\<in>set [0, 5, 2]. r < 0 \<or> total_n_rows ex_state_removed \<le> r) \<and>
   remove_rows ex_state_removed [0, 5, 2] = (Some IndexError, ex_state_removed) \<and>
   remove_rows ex_state_removed [- 1] = (Some IndexError, ex_state_removed)"
proof -
  have h1: "\<exists>r\<in>set [0, 5, 2]. r < 0 \<or> total_n_rows ex_state_removed \<le> r"
    by (simp add: ex_state_removed_def)
  have h2: "\<exists>r\<in>set [- 1]. r < 0 \<or> total_n_rows ex_state_removed \<le> r"
    by simp
  show ?thesis
    using remove_rows_out_of_bounds [OF ex_state_removed_reachable h1]
      remove_rows_out_of_bounds [OF ex_state_removed_reachable h2]
      ex_state_removed_reachable h1 by blast
qed

text \<open>
  C10: a successful \<open>remove_rows\<close> changes the row bookkeeping only; the dataset list,
  the initial row counts, the column count, the word type and pack size and the block
  sizes are unchanged, so the second component of \<open>shape\<close> is constant.
\<close>

theorem remove_rows_frame:
  assumes "remove_rows st rows = (None, st')"
  shows "datasets st' = datasets st \<and>
         dataset_initial_n_rows st' = dataset_initial_n_rows st \<and>
         initial_total_n_rows st' = initial_total_n_rows st \<and>
         dataset_n_cols st' = dataset_n_cols st \<and>
         dataset_dtype st' = dataset_dtype st \<and>
         dataset_pack_size st' = dataset_pack_size st \<and>
         row_block_size st' = row_block_size st \<and>
         col_block_size st' = col_block_size st \<and>
         snd (shape st') = snd (shape st)"
proof -
  obtain new where
    "st' = (fold (remove_step new) [0..<length (datasets st)] st)
             \<lparr> total_n_rows :=
                 sum_list (dataset_n_rows (fold (remove_step new) [0..<length (datasets st)] st)) \<rparr>"
    using assms by (rule remove_rows_success)
  then show ?thesis by (simp add: remove_fold_frame shape_def)
qed

theorem remove_rows_frame_witness:
  "remove_rows ex_state [1] = (None, ex_state_removed) \<and>
   datasets ex_state_removed = datasets ex_state \<and>
   dataset_initial_n_rows ex_state_removed = dataset_initial_n_rows ex_state \<and>
   dataset_pack_size ex_state_removed = dataset_pack_size ex_state \<and>
   row_block_size ex_state_removed = row_block_size ex_state \<and>
   col_block_size ex_state_removed = col_block_size ex_state \<and>
   shape ex_state = (6, 2) \<and> shape ex_state_removed = (5, 2)"
  using remove_rows_frame [OF ex_remove] ex_remove
  by (simp add: shape_def ex_state_def ex_state_removed_def)

subsection \<open>Row masks\<close>

lemma ceil_div_bounds:
  assumes "0 < b"
  shows "b * (ceil_div a b - 1) < a \<and> a \<le> b * ceil_div a b"
proof -
  have m: "0 \<le> (- a) mod b" "(- a) mod b < b" using assms by simp_all
  have e: "b * ((- a) div b) = - a - (- a) mod b"
    by (simp add: minus_mod_eq_mult_div [symmetric])
  have "b * ceil_div a b = a + (- a) mod b"
    unfolding ceil_div_def using e by simp
  then show ?thesis using m by (simp add: algebra_simps)
qed

lemma mask_loop_error:
  assumes "\<exists>idx\<in>set idxs. py_index (length masks) (idx div b) = None"
  shows "mask_loop masks b idxs = Inl IndexError"
  using assms
proof (induction idxs arbitrary: masks)
  case Nil
  then show ?case by simp
next
  case (Cons idx rest)
  show ?case
  proof (cases "py_index (length masks) (idx div b)")
    case None
    then show ?thesis by (simp add: Let_def)
  next
    case (Some j)
    then have "\<exists>i\<in>set rest. py_index (length masks) (i div b) = None"
      using Cons.prems by auto
    then have "mask_loop (masks[j := (masks ! j) OR
                  push_bit (nat (b - (idx - b * (idx div b)) - 1)) 1]) b rest = Inl IndexError"
      by (intro Cons.IH) simp
    then show ?thesis using Some by (simp add: Let_def)
  qed
qed

lemma py_index_less: "py_index n i = Some j \<Longrightarrow> j < n"
  by (auto simp: py_index_def split: if_splits)

lemma mask_loop_bits:
  assumes "\<forall>idx\<in>set idxs. py_index (length masks) (idx div b) \<noteq> None"
  shows "\<exists>ms. mask_loop masks b idxs = Inr ms \<and> length ms = length masks \<and>
           (\<forall>j<length masks. \<forall>k. bit (ms ! j) k \<longleftrightarrow>
              bit (masks ! j) k \<or>
              (\<exists>idx\<in>set idxs. py_index (length masks) (idx div b) = Some j \<and>
                                k = nat (b - (idx - b * (idx div b)) - 1)))"
  using assms
proof (induction idxs arbitrary: masks)
  case Nil
  then show ?case by simp
next
  case (Cons idx rest)
  obtain j0 where j0: "py_index (length masks) (idx div b) = Some j0"
    using Cons.prems by auto
  have j0l: "j0 < length masks" using j0 by (rule py_index_less)
  let ?k0 = "nat (b - (idx - b * (idx div b)) - 1)"
  let ?masks = "masks[j0 := (masks ! j0) OR push_bit ?k0 1]"
  have "\<forall>idx\<in>set rest. py_index (length ?masks) (idx div b) \<noteq> None"
    using Cons.prems by simp
  from Cons.IH [OF this] obtain ms where
    ms: "mask_loop ?masks b rest = Inr ms" "length ms = length masks"
    and bits: "\<And>j k. j < length masks \<Longrightarrow> bit (ms ! j) k \<longleftrightarrow>
              bit (?masks ! j) k \<or>
              (\<exists>idx\<in>set rest. py_index (length masks) (idx div b) = Some j \<and>
                                k = nat (b - (idx - b * (idx div b)) - 1))"
    by auto
  have upd: "\<And>j k. j < length masks \<Longrightarrow>
      bit (?masks ! j) k \<longleftrightarrow> bit (masks ! j) k \<or> (j = j0 \<and> k = ?k0)"
  proof -
    fix j k assume "j < length masks"
    then show "bit (?masks ! j) k \<longleftrightarrow> bit (masks ! j) k \<or> (j = j0 \<and> k = ?k0)"
      by (cases "j = j0") (auto simp: bit_or_iff bit_exp_iff)
  qed
  have run: "mask_loop masks b (idx # rest) = Inr ms"
    using j0 ms(1) by (simp add: Let_def)
  have "\<forall>j<length masks. \<forall>k. bit (ms ! j) k \<longleftrightarrow>
              bit (masks ! j) k \<or>
              (\<exists>i\<in>set (idx # rest). py_index (length masks) (i div b) = Some j \<and>
                                k = nat (b - (i - b * (i div b)) - 1))"
    using bits upd j0 by auto
  then show ?case using run ms(2) by blast
qed

lemma mask_loop_set_eq:
  assumes "set xs = set ys"
  shows "mask_loop masks b xs = mask_loop masks b ys"
proof (cases "\<exists>idx\<in>set xs. py_index (length masks) (idx div b) = None")
  case True
  then show ?thesis using assms by (simp add: mask_loop_error)
next
  case False
  then have ok: "\<forall>idx\<in>set xs. py_index (length masks) (idx div b) \<noteq> None"
    "\<forall>idx\<in>set ys. py_index (length masks) (idx div b) \<noteq> None"
    using assms by auto
  obtain ms where ms: "mask_loop masks b xs = Inr ms" "length ms = length masks"
    "\<And>j k. j < length masks \<Longrightarrow> bit (ms ! j) k \<longleftrightarrow>
              bit (masks ! j) k \<or>
              (\<exists>idx\<in>set xs. py_index (length masks) (idx div b) = Some j \<and>
                                k = nat (b - (idx - b * (idx div b)) - 1))"
    using mask_loop_bits [OF ok(1)] by blast
  obtain ms' where ms': "mask_loop masks b ys = Inr ms'" "length ms' = length masks"
    "\<And>j k. j < length masks \<Longrightarrow> bit (ms' ! j) k \<longleftrightarrow>
              bit (masks ! j) k \<or>
              (\<exists>idx\<in>set ys. py_index (length masks) (idx div b) = Some j \<and>
                                k = nat (b - (idx - b * (idx div b)) - 1))"
    using mask_loop_bits [OF ok(2)] by blast
  have "ms = ms'"
  proof (rule nth_equalityI)
    show "length ms = length ms'" using ms(2) ms'(2) by simp
  next
    fix j assume "j < length ms"
    then have j: "j < length masks" using ms(2) by simp
    show "ms ! j = ms' ! j"
      by (rule bit_eqI) (simp add: ms(3) [OF j] ms'(3) [OF j] assms)
  qed
  then show ?thesis using ms(1) ms'(1) by simp
qed

lemma build_row_mask_set_eq:
  assumes "set xs = set ys"
  shows "build_row_mask xs n b = build_row_mask ys n b"
  unfolding build_row_mask_def Let_def
  using mask_loop_set_eq [OF assms] by simp

lemma mask_loop_range:
  assumes "0 < b" "\<forall>m\<in>set masks. 0 \<le> m \<and> m < 2 ^ nat b"
    and "mask_loop masks b idxs = Inr ms"
  shows "\<forall>m\<in>set ms. 0 \<le> m \<and> m < 2 ^ nat b"
  using assms(2,3)
proof (induction idxs arbitrary: masks)
  case Nil
  then show ?case by simp
next
  case (Cons idx rest)
  obtain j0 where j0: "py_index (length masks) (idx div b) = Some j0"
    using Cons.prems(2) by (auto simp: Let_def split: option.splits)
  have j0l: "j0 < length masks" using j0 by (rule py_index_less)
  let ?k0 = "nat (b - (idx - b * (idx div b)) - 1)"
  let ?v = "(masks ! j0) OR push_bit ?k0 1"
  have rec: "mask_loop (masks[j0 := ?v]) b rest = Inr ms"
    using Cons.prems(2) j0 by (simp add: Let_def)
  have md: "idx - b * (idx div b) = idx mod b"
    by (simp add: minus_mult_div_eq_mod)
  have "0 \<le> idx mod b" "idx mod b < b" using assms(1) by simp_all
  then have k0: "?k0 < nat b" unfolding md by linarith
  have old: "0 \<le> masks ! j0 \<and> masks ! j0 < 2 ^ nat b"
    using Cons.prems(1) j0l by simp
  have p: "(push_bit ?k0 1 :: int) < 2 ^ nat b"
    using k0 by (simp add: push_bit_eq_mult)
  have v: "0 \<le> ?v \<and> ?v < 2 ^ nat b"
    using old p by (simp add: OR_upper)
  have "\<forall>m\<in>set (masks[j0 := ?v]). 0 \<le> m \<and> m < 2 ^ nat b"
    using Cons.prems(1) v set_update_subset_insert [of masks j0 ?v] by blast
  from Cons.IH [OF this rec] show ?case .
qed

lemma build_row_mask_correct:
  assumes b: "b \<in> {8, 16, 32, 64}" and n: "0 \<le> n"
    and rows: "\<forall>r\<in>set rows. 0 \<le> r \<and> r < n"
  shows "\<exists>ms. build_row_mask rows n b = Inr ms \<and> int (length ms) = ceil_div n b \<and>
           (\<forall>j<length ms. \<forall>k. bit (ms ! j) k \<longleftrightarrow>
              (\<exists>r\<in>set rows. r div b = int j \<and> int k = b - 1 - r mod b))"
proof -
  have bpos: "0 < b" using b by auto
  note cb = ceil_div_bounds [OF bpos, of n]
  have cnn: "0 \<le> ceil_div n b"
  proof (rule ccontr)
    assume "\<not> 0 \<le> ceil_div n b"
    then have "ceil_div n b \<le> - 1" by simp
    then have "b * ceil_div n b \<le> b * (- 1)" using bpos by (intro mult_left_mono) simp_all
    then show False using cb n bpos by simp
  qed
  let ?masks = "replicate (nat (ceil_div n b)) (0::int)"
  have idx: "\<And>r. r \<in> set rows \<Longrightarrow> py_index (length ?masks) (r div b) = Some (nat (r div b))"
  proof -
    fix r assume r: "r \<in> set rows"
    then have r0: "0 \<le> r" "r < n" using rows by auto
    have d0: "0 \<le> r div b" using r0 bpos by (simp add: pos_imp_zdiv_nonneg_iff)
    have "r < b * ceil_div n b" using r0 cb by simp
    moreover have "b * (r div b) \<le> r"
      using bpos by (simp add: minus_mod_eq_mult_div [symmetric])
    ultimately have "b * (r div b) < b * ceil_div n b" by simp
    then have "r div b < ceil_div n b"
      using bpos by (simp add: mult_less_cancel_left_pos)
    then show "py_index (length ?masks) (r div b) = Some (nat (r div b))"
      using d0 by (simp add: py_index_def)
  qed
  then have ok: "\<forall>idx\<in>set rows. py_index (length ?masks) (idx div b) \<noteq> None" by simp
  obtain ms where ms: "mask_loop ?masks b rows = Inr ms" "length ms = length ?masks"
    and bits: "\<And>j k. j < length ?masks \<Longrightarrow> bit (ms ! j) k \<longleftrightarrow>
              bit (?masks ! j) k \<or>
              (\<exists>idx\<in>set rows. py_index (length ?masks) (idx div b) = Some j \<and>
                                k = nat (b - (idx - b * (idx div b)) - 1))"
    using mask_loop_bits [OF ok] by blast
  have rng: "\<forall>m\<in>set ms. 0 \<le> m \<and> m < 2 ^ nat b"
    by (rule mask_loop_range [OF bpos _ ms(1)]) simp
  have conv: "np_array_uint ms (b div 8) = Inr ms"
  proof -
    have "b div 8 \<in> set [1, 2, 4, 8]" "nat (8 * (b div 8)) = nat b" using b by auto
    then show ?thesis using rng by (simp add: np_array_uint_def list_all_iff)
  qed
  have res: "build_row_mask rows n b = Inr ms"
    using b ms(1) conv by (auto simp: build_row_mask_def Let_def)
  have len: "int (length ms) = ceil_div n b" using ms(2) cnn by simp
  have "\<forall>j<length ms. \<forall>k. bit (ms ! j) k \<longleftrightarrow>
              (\<exists>r\<in>set rows. r div b = int j \<and> int k = b - 1 - r mod b)"
  proof (intro allI impI)
    fix j k assume j: "j < length ms"
    then have j': "j < length ?masks" using ms(2) by simp
    have "bit (ms ! j) k \<longleftrightarrow>
              (\<exists>idx\<in>set rows. py_index (length ?masks) (idx div b) = Some j \<and>
                                k = nat (b - (idx - b * (idx div b)) - 1))"
      using bits [OF j'] j' by simp
    also have "\<dots> \<longleftrightarrow> (\<exists>r\<in>set rows. r div b = int j \<and> int k = b - 1 - r mod b)"
    proof (intro bex_cong refl)
      fix r assume r: "r \<in> set rows"
      have d0: "0 \<le> r div b" using rows r bpos by (simp add: pos_imp_zdiv_nonneg_iff)
      have m: "0 \<le> r mod b" "r mod b < b" using bpos by simp_all
      have md: "r - b * (r div b) = r mod b" by (simp add: minus_mult_div_eq_mod)
      show "(py_index (length ?masks) (r div b) = Some j \<and> k = nat (b - (r - b * (r div b)) - 1))
            \<longleftrightarrow> (r div b = int j \<and> int k = b - 1 - r mod b)"
        unfolding idx [OF r] md using d0 m by auto
    qed
    finally show "bit (ms ! j) k \<longleftrightarrow>
              (\<exists>r\<in>set rows. r div b = int j \<and> int k = b - 1 - r mod b)" .
  qed
  then show ?thesis using res len by blast
qed

lemma build_row_mask_empty:
  assumes "b \<in> {8, 16, 32, 64}"
  shows "build_row_mask [] n b = Inr (replicate (nat (ceil_div n b)) 0)"
proof -
  have "b div 8 \<in> set [1, 2, 4, 8]" using assms by auto
  then show ?thesis
    using assms by (auto simp: build_row_mask_def Let_def np_array_uint_def list_all_iff)
qed

lemma build_row_mask_unsupported:
  assumes "b \<notin> {8, 16, 32, 64, 128}"
  shows "build_row_mask rows n b = Inl ValueError"
  using assms by (simp add: build_row_mask_def)

lemma build_row_mask_128:
  "build_row_mask rows n 128 = Inl IndexError \<or> build_row_mask rows n 128 = Inl TypeError"
proof (cases "mask_loop (replicate (nat (ceil_div n 128)) 0) 128 rows")
  case (Inl e)
  have "\<exists>idx\<in>set rows. py_index (length (replicate (nat (ceil_div n 128)) (0::int))) (idx div 128) = None"
  proof (rule ccontr)
    assume "\<not> ?thesis"
    then have "\<forall>idx\<in>set rows. py_index (length (replicate (nat (ceil_div n 128)) (0::int))) (idx div 128) \<noteq> None"
      by simp
    from mask_loop_bits [OF this] show False using Inl by auto
  qed
  then have "mask_loop (replicate (nat (ceil_div n 128)) 0) 128 rows = Inl IndexError"
    by (rule mask_loop_error)
  then show ?thesis by (simp add: build_row_mask_def Let_def)
next
  case (Inr ms)
  then show ?thesis by (simp add: build_row_mask_def Let_def np_array_uint_def)
qed

text \<open>
  C6: \<open>build_row_mask\<close> is to return \<open>ceil(row_count / word_width)\<close> words with bit
  \<open>word_width - 1 - (r mod word_width)\<close> of word \<open>r div word_width\<close> set for every row
  \<open>r\<close>, for the widths 8, 16, 32, 64 and 128, and to raise for any other width.  For the
  widths up to 64 it does (\<open>build_row_mask_correct\<close>, \<open>build_row_mask_empty\<close>), and other
  widths raise ValueError (\<open>build_row_mask_unsupported\<close>).  The width 128 passes the
  check, but the word type \<open>u16\<close> it asks numpy for does not exist, and the call raises
  (\<open>build_row_mask_128\<close>); here on concrete rows.
\<close>

theorem build_row_mask_128_type_error:
  "(128::int) \<in> set [8, 16, 32, 64, 128] \<and>
   build_row_mask [0, 129] 130 128 = Inl TypeError \<and>
   build_row_mask [] 130 128 = Inl TypeError \<and>
   build_row_mask [0, 9] 10 8 = Inr [128, 64]"
  by code_simp

subsection \<open>The rows sum_rows addresses\<close>

lemma relative_loop_error:
  assumes "\<exists>r\<in>set rows. get_row_dataset st r = - 1"
  shows "relative_loop st rows acc = Inl IndexError"
  using assms by (induction rows arbitrary: acc) (auto simp: Let_def)

lemma relative_loop_char:
  assumes "\<forall>r\<in>set rows. get_row_dataset st r \<noteq> - 1"
    and "length acc = length (datasets st)"
  shows "relative_loop st rows acc =
           Inr (map (\<lambda>i. acc ! i @ map (physical_row st)
                           (filter (\<lambda>r. nat (get_row_dataset st r) = i) rows))
                  [0..<length (datasets st)])"
  using assms
proof (induction rows arbitrary: acc)
  case Nil
  then show ?case using map_nth [of acc] by simp
next
  case (Cons r rows)
  let ?d = "nat (get_row_dataset st r)"
  have found: "get_row_dataset st r \<noteq> - 1" using Cons.prems(1) by simp
  have d: "?d < length (datasets st)" using get_row_dataset_found [OF found] by simp
  let ?acc = "acc[?d := acc ! ?d @ [physical_row st r]]"
  have step: "relative_loop st (r # rows) acc = relative_loop st rows ?acc"
    using found by (simp add: Let_def physical_row_def)
  have "relative_loop st rows ?acc =
           Inr (map (\<lambda>i. ?acc ! i @ map (physical_row st)
                           (filter (\<lambda>r. nat (get_row_dataset st r) = i) rows))
                  [0..<length (datasets st)])"
    using Cons.prems by (intro Cons.IH) simp_all
  also have "map (\<lambda>i. ?acc ! i @ map (physical_row st)
                           (filter (\<lambda>r. nat (get_row_dataset st r) = i) rows))
                  [0..<length (datasets st)] =
             map (\<lambda>i. acc ! i @ map (physical_row st)
                           (filter (\<lambda>r. nat (get_row_dataset st r) = i) (r # rows)))
                  [0..<length (datasets st)]"
    using Cons.prems(2) d by (intro map_cong refl) (auto simp: nth_list_update)
  finally show ?case using step by simp
qed

lemma relative_loop_set_eq:
  assumes "set xs = set ys"
  shows "(case relative_loop st xs (replicate (length (datasets st)) []) of
            Inl e \<Rightarrow> relative_loop st ys (replicate (length (datasets st)) []) = Inl e
          | Inr rel \<Rightarrow>
              (\<exists>rel'. relative_loop st ys (replicate (length (datasets st)) []) = Inr rel' \<and>
                 length rel = length (datasets st) \<and> length rel' = length (datasets st) \<and>
                 (\<forall>i<length (datasets st). set (rel ! i) = set (rel' ! i))))"
proof (cases "\<exists>r\<in>set xs. get_row_dataset st r = - 1")
  case True
  then show ?thesis using assms by (simp add: relative_loop_error)
next
  case False
  then have ok: "\<forall>r\<in>set xs. get_row_dataset st r \<noteq> - 1" "\<forall>r\<in>set ys. get_row_dataset st r \<noteq> - 1"
    using assms by auto
  show ?thesis
    using assms
    by (simp add: relative_loop_char [OF ok(1)] relative_loop_char [OF ok(2)])
qed

lemma row_masks_set_eq:
  assumes "\<forall>i\<in>set is. set (rel ! i) = set (rel' ! i)"
  shows "row_masks st rel is = row_masks st rel' is"
  using assms
proof (induction "is")
  case Nil
  then show ?case by simp
next
  case (Cons i "is")
  have s: "set (rel ! i) = set (rel' ! i)" using Cons.prems by simp
  then have e: "(0 < length (rel ! i)) = (0 < length (rel' ! i))"
    by (metis length_greater_0_conv set_empty)
  have b: "build_row_mask (rel ! i) (dataset_n_rows st ! i) (int (dataset_pack_size st)) =
           build_row_mask (rel' ! i) (dataset_n_rows st ! i) (int (dataset_pack_size st))"
    by (rule build_row_mask_set_eq [OF s])
  have r: "row_masks st rel is = row_masks st rel' is" using Cons by simp
  show ?case by (simp only: row_masks.simps e b r)
qed

lemma dataset_row_masks_set_eq:
  assumes "set rows = set rows'"
  shows "dataset_row_masks st rows = dataset_row_masks st rows'"
proof -
  have s: "set (sort rows) = set (sort rows')" using assms by simp
  note c = relative_loop_set_eq [OF s, of st]
  show ?thesis
  proof (cases "relative_loop st (sort rows) (replicate (length (datasets st)) [])")
    case (Inl e)
    then show ?thesis using c by (simp add: dataset_row_masks_def)
  next
    case (Inr rel)
    then obtain rel' where
      rel': "relative_loop st (sort rows') (replicate (length (datasets st)) []) = Inr rel'"
      and eq: "\<forall>i<length (datasets st). set (rel ! i) = set (rel' ! i)"
      using c by auto
    have "row_masks st rel [0..<length (datasets st)] = row_masks st rel' [0..<length (datasets st)]"
      using eq by (intro row_masks_set_eq) simp
    then show ?thesis using Inr rel' by (simp add: dataset_row_masks_def)
  qed
qed

text \<open>
  C7 (as the code has it): the mask bit of a row is set by OR, so a row that is passed
  several times is counted once.  Two requests with the same set of rows build the same
  masks, and return the same result whenever their lengths select the same result type.
\<close>

theorem sum_rows_counts_row_once:
  assumes "set rows = set rows'"
  shows "dataset_row_masks st rows = dataset_row_masks st rows' \<and>
         (column_sum_dtype (length rows) = column_sum_dtype (length rows') \<longrightarrow>
            sum_rows st rows = sum_rows st rows')"
  using dataset_row_masks_set_eq [OF assms, of st] by (simp add: sum_rows_def)

theorem sum_rows_counts_row_once_witness:
  "set [0, 0, 0, 4::int] = set [0, 4] \<and>
   column_sum_dtype (length [0, 0, 0, 4::int]) = column_sum_dtype (length [0, 4::int]) \<and>
   sum_rows ex_state [0, 0, 0, 4] = sum_rows ex_state [0, 4] \<and>
   sum_rows ex_state [0, 4] = Inr \<lparr> sr_dtype = uint8, sr_values = [1, 2], sr_reads = 4 \<rparr>"
proof -
  have h: "set [0, 0, 0, 4::int] = set [0, 4]" by auto
  have d: "column_sum_dtype (length [0, 0, 0, 4::int]) = column_sum_dtype (length [0, 4::int])"
    by (simp add: column_sum_dtype_def)
  have v: "sum_rows ex_state [0, 4] = Inr \<lparr> sr_dtype = uint8, sr_values = [1, 2], sr_reads = 4 \<rparr>"
    by code_simp
  show ?thesis
    using sum_rows_counts_row_once [OF h, of ex_state] h d v by simp
qed

text \<open>
  C7 (as stated) fails: passing row 0 twice gives the counts of passing it once, not
  twice those counts.
\<close>

theorem sum_rows_duplicate_counterexample:
  "sum_rows ex_state [0] = Inr \<lparr> sr_dtype = uint8, sr_values = [1, 1], sr_reads = 2 \<rparr> \<and>
   sum_rows ex_state [0, 0] = Inr \<lparr> sr_dtype = uint8, sr_values = [1, 1], sr_reads = 2 \<rparr> \<and>
   sum_rows ex_state [0, 0] \<noteq> Inr \<lparr> sr_dtype = uint8, sr_values = [2, 2], sr_reads = 2 \<rparr>"
  by code_simp

subsection \<open>Result width and the empty request\<close>

lemma row_masks_empty:
  assumes "\<forall>i\<in>set is. i < n"
  shows "row_masks st (replicate n []) is = Inr (replicate (length is) [])"
  using assms by (induction "is") simp_all

lemma dataset_row_masks_empty:
  "dataset_row_masks st [] = Inr (replicate (length (datasets st)) [])"
  using row_masks_empty [of "[0..<length (datasets st)]" "length (datasets st)" st]
  by (simp add: dataset_row_masks_def)

lemma fold_err_skip:
  assumes "\<forall>i\<in>set is. f i a = Inr a"
  shows "fold_err f is a = Inr a"
  using assms by (induction "is") simp_all

lemma sum_rows_dtype:
  "sum_rows st rows = Inr r \<Longrightarrow> sr_dtype r = column_sum_dtype (length rows)"
  by (auto simp: sum_rows_def Let_def split: sum.splits option.splits if_splits)

lemma column_sum_dtype_fits:
  assumes "n < 2 ^ 64"
  shows "n \<le> iinfo_max (column_sum_dtype n)"
  using assms by (simp add: column_sum_dtype_def)

lemma column_sum_dtype_least:
  assumes "d \<in> {uint8, uint16, uint32, uint64}" "n \<le> iinfo_max d"
  shows "dtype_bits (column_sum_dtype n) \<le> dtype_bits d"
  using assms by (auto simp: column_sum_dtype_def)

lemma sum_rows_empty:
  assumes "col_block_size st = Some cbs" "cbs \<noteq> 0"
  shows "sum_rows st [] =
           Inr \<lparr> sr_dtype = uint8, sr_values = replicate (dataset_n_cols st) 0, sr_reads = 0 \<rparr>"
proof -
  let ?a = "\<lparr> acc_result = replicate (dataset_n_cols st) (0::int), acc_reads = 0 \<rparr>"
  let ?ncb = "nat (ceil_div (int (dataset_n_cols st)) (int cbs))"
  have "fold_err (dataset_step st uint8 (replicate (length (datasets st)) []) cbs ?ncb)
          [0..<length (datasets st)] ?a = Inr ?a"
    by (rule fold_err_skip) (simp add: dataset_step_def)
  then show ?thesis
    using assms by (simp add: sum_rows_def dataset_row_masks_empty column_sum_dtype_def)
qed

text \<open>
  C8: \<open>sum_rows\<close> is to return a vector whose element type is the narrowest of the
  unsigned 8, 16, 32 and 64 bit types that holds the number of requested rows, so that no
  count overflows, and zeros for every column, without reading a block, when no row is
  requested.  The type is chosen that way (\<open>sum_rows_dtype\<close>, \<open>column_sum_dtype_fits\<close>,
  \<open>column_sum_dtype_least\<close>), and the empty request returns zeros on an object that has
  its column block size (\<open>sum_rows_empty\<close>).  An object constructed with a column block
  size does not have the attribute, and there the empty request raises AttributeError
  instead of returning zeros:
\<close>

theorem sum_rows_empty_request_attribute_error:
  "init [ex_dataset, ex_dataset] [3, 3] None (Some 1) = Inr ex_state_col_override \<and>
   valid_args [ex_dataset, ex_dataset] [3, 3] \<and>
   dataset_n_cols ex_state_col_override = 2 \<and>
   sum_rows ex_state_col_override [] = Inl AttributeError \<and>
   sum_rows ex_state [] = Inr \<lparr> sr_dtype = uint8, sr_values = [0, 0], sr_reads = 0 \<rparr>"
  by code_simp

text \<open>
  Nor do the sums the block loop accumulates stay within the number of requested rows:
  every row block is counted under the first words of the row mask (the whole mask is
  passed to the popcount primitive, whatever rows the block holds).  On the dataset with
  every bit set, the request of 39 rows adds 32 for each of the eight packed rows it
  touches, and the 8-bit result wraps to 0.
\<close>

lemma sum_rows_count_wraps:
  "init [ex_full_dataset] [256] None None = Inr ex_full_state \<and>
   valid_args [ex_full_dataset] [256] \<and>
   length ex_full_rows = 39 \<and> distinct ex_full_rows \<and>
   column_sum_dtype (length ex_full_rows) = uint8 \<and>
   get_column ex_full_state 0 = Inr (replicate 256 True) \<and>
   sum_rows ex_full_state ex_full_rows =
     Inr \<lparr> sr_dtype = uint8, sr_values = [0], sr_reads = 8 \<rparr>"
  by code_simp

subsection \<open>Block sizes\<close>

lemma init_default_block_sizes:
  assumes "init dss n_rows None None = Inr st"
  shows "row_block_size st = map_option fst (ds_chunks (hd dss)) \<and>
         col_block_size st = map_option snd (ds_chunks (hd dss)) \<and>
         ds_chunks (hd dss) \<noteq> None"
  using assms by (cases dss) (auto simp: init_def Let_def split: if_splits)

lemma init_override_not_stored:
  assumes "init dss n_rows (Some rbs) (Some cbs) = Inr st"
  shows "row_block_size st = None \<and> col_block_size st = None"
  using assms by (cases dss) (auto simp: init_def Let_def split: if_splits)

lemma sum_rows_needs_col_block_size:
  assumes "col_block_size st = None"
  shows "sum_rows st rows \<noteq> Inr r"
  using assms by (auto simp: sum_rows_def Let_def split: sum.splits)

text \<open>
  C9: a block size passed to the constructor is to be stored and used by \<open>sum_rows\<close>.
  The constructor assigns the attributes only when the argument is omitted
  (\<open>init_default_block_sizes\<close>); with an argument the attribute is never created
  (\<open>init_override_not_stored\<close>) and \<open>sum_rows\<close> cannot return
  (\<open>sum_rows_needs_col_block_size\<close>).  Evaluated on a concrete object, next to the
  default construction:
\<close>

theorem block_size_override_not_stored:
  "init [ex_dataset, ex_dataset] [3, 3] (Some 1) (Some 1) = Inr ex_state_override \<and>
   row_block_size ex_state_override = None \<and> col_block_size ex_state_override = None \<and>
   sum_rows ex_state_override [0] = Inl AttributeError \<and>
   sum_rows ex_state_override [] = Inl AttributeError \<and>
   init [ex_dataset, ex_dataset] [3, 3] None None = Inr ex_state \<and>
   row_block_size ex_state = Some 1 \<and> col_block_size ex_state = Some 1 \<and>
   sum_rows ex_state [0] = Inr \<lparr> sr_dtype = uint8, sr_values = [1, 1], sr_reads = 2 \<rparr>"
  by code_simp

subsection \<open>Sums after a removal\<close>

text \<open>
  C1: \<open>sum_rows\<close> is to return, for every column, the number of requested rows whose
  entry of \<open>get_column\<close> is set.  After a removal it does not: the mask of a dataset is
  sized by its current row count while the rows it addresses are physical ones.  With 33
  declared rows and row 0 removed, global row 31 is physical row 32, whose bit is set in
  column 0; \<open>sum_rows([31])\<close> raises IndexError.
\<close>

theorem sum_rows_after_removal_index_error:
  "init [ex_wide_dataset] [33] None None = Inr ex_wide_state \<and>
   remove_rows ex_wide_state [0] = (None, ex_wide_removed) \<and>
   total_n_rows ex_wide_removed = 32 \<and>
   get_column ex_wide_removed 0 = Inr (replicate 31 False @ [True]) \<and>
   sum_rows ex_wide_removed [31] = Inl IndexError"
  by code_simp

text \<open>
  The row addressed can also be a removed one: with the physical rows 0 and 1 removed,
  global row 0 is physical row 2, but \<open>sum_rows([0])\<close> counts physical row 1.
\<close>

lemma sum_rows_after_removal_wrong_row:
  "remove_rows ex_state [0, 1] = (None, ex_state_removed2) \<and>
   get_column ex_state_removed2 0 = Inr [True, True, False, True] \<and>
   physical_row ex_state_removed2 0 = 1 \<and>
   sum_rows ex_state_removed2 [0] = Inr \<lparr> sr_dtype = uint8, sr_values = [0, 1], sr_reads = 2 \<rparr>"
  by code_simp

subsection \<open>Extracting a column\<close>

lemma length_unpack:
  "length (unpack_binary_bytes_from_ints pack a) = length a * pack"
  by (induction a) (simp_all add: unpack_binary_bytes_from_ints_def)

lemma np_set_false_char:
  assumes "\<forall>r\<in>set rs. 0 \<le> r \<and> r < int (length msk)"
  shows "\<exists>m. np_set_false msk rs = Inr m \<and> length m = length msk \<and>
             (\<forall>p<length msk. m ! p \<longleftrightarrow> msk ! p \<and> int p \<notin> set rs)"
  using assms
proof (induction rs arbitrary: msk)
  case Nil
  then show ?case by simp
next
  case (Cons r rs)
  have r: "0 \<le> r" "r < int (length msk)" using Cons.prems by simp_all
  then have idx: "py_index (length msk) r = Some (nat r)" by (simp add: py_index_def)
  have "\<forall>x\<in>set rs. 0 \<le> x \<and> x < int (length (msk[nat r := False]))"
    using Cons.prems by simp
  from Cons.IH [OF this] obtain m where
    m: "np_set_false (msk[nat r := False]) rs = Inr m" "length m = length msk"
    and mb: "\<And>p. p < length msk \<Longrightarrow> m ! p \<longleftrightarrow> (msk[nat r := False]) ! p \<and> int p \<notin> set rs"
    by auto
  have "\<forall>p<length msk. m ! p \<longleftrightarrow> msk ! p \<and> int p \<notin> set (r # rs)"
  proof (intro allI impI)
    fix p assume p: "p < length msk"
    show "m ! p \<longleftrightarrow> msk ! p \<and> int p \<notin> set (r # rs)"
      using mb [OF p] p r by (cases "p = nat r") (auto simp: nth_list_update)
  qed
  then show ?case using idx m by simp
qed

lemma zip_index:
  assumes "length xs = length bs"
  shows "zip xs bs = map (\<lambda>i. (xs ! i, bs ! i)) [0..<length xs]"
  using assms by (intro nth_equalityI) simp_all

lemma filter_mask:
  assumes "length xs = length bs"
  shows "map fst (filter snd (zip xs bs)) = map ((!) xs) (filter ((!) bs) [0..<length xs])"
  by (simp add: zip_index [OF assms] filter_map comp_def)

lemma filter_below:
  assumes "k \<le> n"
  shows "filter (\<lambda>p. p < k \<and> Q p) [0..<n] = filter Q [0..<k]"
proof -
  have "[0..<n] = [0..<k] @ [k..<n]" using assms by (metis le0 upt_add_eq_append le_add_diff_inverse)
  then show ?thesis by (auto intro: filter_cong)
qed

lemma length_kept:
  fixes R :: "int list"
  assumes "distinct R" "\<forall>r\<in>set R. 0 \<le> r \<and> r < int k"
  shows "length (filter (\<lambda>p. int p \<notin> set R) [0..<k]) = k - length R"
proof -
  have "length (filter (\<lambda>p. int p \<in> set R) [0..<k]) = card (set (filter (\<lambda>p. int p \<in> set R) [0..<k]))"
    by (rule distinct_card [symmetric]) simp
  also have "set (filter (\<lambda>p. int p \<in> set R) [0..<k]) = nat ` set R"
  proof (intro set_eqI iffI)
    fix p assume "p \<in> set (filter (\<lambda>p. int p \<in> set R) [0..<k])"
    then have "int p \<in> set R" by simp
    then show "p \<in> nat ` set R" by (metis image_eqI nat_int)
  next
    fix p assume "p \<in> nat ` set R"
    then obtain r where r: "r \<in> set R" "p = nat r" by auto
    then show "p \<in> set (filter (\<lambda>p. int p \<in> set R) [0..<k])"
      using assms(2) by auto
  qed
  also have "card (nat ` set R) = card (set R)"
  proof (rule card_image)
    show "inj_on nat (set R)"
      using assms(2) by (intro inj_onI) (metis nat_eq_iff2 int_nat_eq)
  qed
  also have "\<dots> = length R" using assms(1) by (simp add: distinct_card)
  finally have c: "length (filter (\<lambda>p. int p \<in> set R) [0..<k]) = length R" .
  have "length (filter (\<lambda>p. int p \<in> set R) [0..<k])
          + length (filter (\<lambda>p. \<not> int p \<in> set R) [0..<k]) = length [0..<k]"
    by (rule sum_length_filter_compl)
  then show ?thesis using c by simp
qed

lemma np_assign_slice_exact:
  assumes "0 \<le> start" "start \<le> stop" "nat stop \<le> length result"
    and "length vals = nat stop - nat start"
  shows "np_assign_slice result start stop vals =
           Inr (take (nat start) result @ vals @ drop (nat stop) result)"
proof -
  have lo: "py_slice_bound (length result) start = nat start"
    using assms by (simp add: py_slice_bound_def)
  have hi: "py_slice_bound (length result) stop = nat stop"
    using assms by (simp add: py_slice_bound_def)
  have "nat start + (nat stop - nat start) = nat stop" using assms by simp
  then show ?thesis
    using assms(4) by (simp add: np_assign_slice_def lo hi Let_def)
qed

lemma wf_kept_length:
  assumes wf: "wf_state st" and i: "i < length (datasets st)"
  shows "int (length (kept_rows st i)) = dataset_n_rows st ! i"
proof -
  have f: "0 \<le> dataset_initial_n_rows st ! i" "distinct (dataset_removed_rows st ! i)"
    "\<forall>r\<in>set (dataset_removed_rows st ! i). 0 \<le> r \<and> r < dataset_initial_n_rows st ! i"
    "dataset_n_rows st ! i =
       dataset_initial_n_rows st ! i - int (length (dataset_removed_rows st ! i))"
    using wf i unfolding wf_state_def Let_def by simp_all
  have "length (kept_rows st i) =
          nat (dataset_initial_n_rows st ! i) - length (dataset_removed_rows st ! i)"
    unfolding kept_rows_def using f by (intro length_kept) auto
  moreover have "0 \<le> dataset_n_rows st ! i" by (rule wf_n_rows_nonneg [OF wf i])
  ultimately show ?thesis using f by simp
qed

lemma get_column_step_char:
  assumes wf: "wf_state st" and i: "i < length (datasets st)"
    and col: "column < ds_cols (datasets st ! i)"
    and len: "length result = nat (total_n_rows st)"
  shows "get_column_step st column i result =
           Inr (take (nat (dataset_start_example st ! i)) result @ kept_values st column i
                @ drop (nat (dataset_stop_example st ! i)) result)"
proof -
  let ?d = "datasets st ! i"
  let ?n = "length (ds_data ?d) * dataset_pack_size st"
  let ?init = "dataset_initial_n_rows st ! i"
  let ?R = "dataset_removed_rows st ! i"
  have f: "0 \<le> ?init" "?init \<le> int ?n" "\<forall>r\<in>set ?R. 0 \<le> r \<and> r < ?init"
    using wf i unfolding wf_state_def Let_def by simp_all
  have k2: "nat ?init \<le> ?n"
    using f(2) by (simp add: nat_le_iff)
  have k: "py_slice_bound ?n ?init = nat ?init" "nat ?init \<le> ?n"
    using f(1) k2 by (simp_all add: py_slice_bound_def)
  let ?m1 = "take (nat ?init) (replicate ?n True) @ replicate (?n - nat ?init) False"
  have m1len: "length ?m1 = ?n" using k by simp
  have m1: "\<And>p. p < ?n \<Longrightarrow> ?m1 ! p \<longleftrightarrow> p < nat ?init"
    using k by (auto simp: nth_append)
  have "\<forall>r\<in>set ?R. 0 \<le> r \<and> r < int (length ?m1)"
    using f m1len by auto
  from np_set_false_char [OF this] obtain m where
    m: "np_set_false ?m1 ?R = Inr m" "length m = ?n"
    and mb: "\<And>p. p < ?n \<Longrightarrow> m ! p \<longleftrightarrow> p < nat ?init \<and> int p \<notin> set ?R"
    using m1len m1 by auto
  let ?u = "unpacked_column st column i"
  have ulen: "length ?u = length m"
    by (simp add: unpacked_column_def length_unpack m(2))
  have "filter ((!) m) [0..<?n] = filter (\<lambda>p. p < nat ?init \<and> int p \<notin> set ?R) [0..<?n]"
    by (rule filter_cong) (simp_all add: mb)
  also have "\<dots> = kept_rows st i"
    unfolding kept_rows_def by (rule filter_below [OF k(2)])
  finally have kept: "map fst (filter snd (zip ?u m)) = kept_values st column i"
    using ulen m(2) by (simp add: filter_mask kept_values_def)
  have rng: "0 \<le> dataset_start_example st ! i"
       "dataset_start_example st ! i \<le> dataset_stop_example st ! i"
       "dataset_stop_example st ! i \<le> total_n_rows st"
    using wf_ranges [OF wf i] by simp_all
  have vl: "length (kept_values st column i)
              = nat (dataset_stop_example st ! i) - nat (dataset_start_example st ! i)"
  proof -
    have "int (length (kept_values st column i)) = dataset_n_rows st ! i"
      using wf_kept_length [OF wf i] by (simp add: kept_values_def)
    then show ?thesis using wf_stop_start [OF wf i] rng by linarith
  qed
  have asg: "np_assign_slice result (dataset_start_example st ! i) (dataset_stop_example st ! i)
               (kept_values st column i) =
             Inr (take (nat (dataset_start_example st ! i)) result @ kept_values st column i
                @ drop (nat (dataset_stop_example st ! i)) result)"
    using rng len vl by (intro np_assign_slice_exact) simp_all
  show ?thesis
    unfolding get_column_step_def Let_def k(1)
    using m(1) col kept asg
    by (simp add: read_column_def unpacked_column_def)
qed

lemma fold_err_snoc:
  "fold_err f (xs @ [x]) s = (case fold_err f xs s of Inl e \<Rightarrow> Inl e | Inr s' \<Rightarrow> f x s')"
  by (induction xs arbitrary: s) (auto split: sum.splits)

lemma get_column_loop:
  assumes wf: "wf_state st"
    and cols: "\<forall>i<length (datasets st). column < ds_cols (datasets st ! i)"
  shows "k \<le> length (datasets st) \<Longrightarrow>
     fold_err (get_column_step st column) [0..<k] (replicate (nat (total_n_rows st)) False) =
       Inr (concat (map (kept_values st column) [0..<k])
            @ replicate (nat (total_n_rows st) - nat (\<Sum>j<k. dataset_n_rows st ! j)) False)"
proof (induction k)
  case 0
  then show ?case by simp
next
  case (Suc k)
  let ?N = "nat (total_n_rows st)"
  let ?S = "concat (map (kept_values st column) [0..<k])"
  let ?off = "\<lambda>k. nat (\<Sum>j<k. dataset_n_rows st ! j)"
  let ?res = "?S @ replicate (?N - ?off k) False"
  have k: "k < length (datasets st)" using Suc.prems by simp
  have IH: "fold_err (get_column_step st column) [0..<k] (replicate ?N False) = Inr ?res"
    using Suc by simp
  have start: "dataset_start_example st ! k = (\<Sum>j<k. dataset_n_rows st ! j)"
    and stop: "dataset_stop_example st ! k = (\<Sum>j<Suc k. dataset_n_rows st ! j)"
    using wf k unfolding wf_state_def Let_def by simp_all
  have rng: "0 \<le> dataset_start_example st ! k"
       "dataset_start_example st ! k \<le> dataset_stop_example st ! k"
       "dataset_stop_example st ! k \<le> total_n_rows st"
    using wf_ranges [OF wf k] by simp_all
  have Slen: "length ?S = ?off k"
  proof -
    have "int (length ?S) = (\<Sum>j<k. dataset_n_rows st ! j)"
      using k
    proof (induction k)
      case 0
      then show ?case by simp
    next
      case (Suc m)
      then show ?case
        using wf_kept_length [OF wf, of m] by (simp add: kept_values_def)
    qed
    then show ?thesis by simp
  qed
  have le: "?off k \<le> ?off (Suc k)" "?off (Suc k) \<le> ?N"
    using rng unfolding start stop by simp_all
  have reslen: "length ?res = ?N" using Slen le by simp
  have tk: "take (?off k) ?res = ?S" using Slen by simp
  have dr: "drop (?off (Suc k)) ?res = replicate (?N - ?off (Suc k)) False"
    using Slen le by simp
  have "get_column_step st column k ?res =
          Inr (take (nat (dataset_start_example st ! k)) ?res @ kept_values st column k
                @ drop (nat (dataset_stop_example st ! k)) ?res)"
    using cols k reslen by (intro get_column_step_char [OF wf]) simp_all
  then have step: "get_column_step st column k ?res =
          Inr (?S @ kept_values st column k @ replicate (?N - ?off (Suc k)) False)"
    unfolding start stop using tk dr by simp
  have "fold_err (get_column_step st column) [0..<Suc k] (replicate ?N False) =
          get_column_step st column k ?res"
    using IH by (simp add: fold_err_snoc)
  then show ?case using step by simp
qed

lemma reachable_cols_ok: "reachable st \<Longrightarrow> cols_ok st"
proof (induction rule: reachable.induct)
  case (constructed dss n_rows rbs cbs st)
  then show ?case
    by (cases dss) (auto simp: init_def Let_def cols_ok_def list_all_iff split: if_splits)
next
  case (removed st rows st')
  obtain new where
    "st' = (fold (remove_step new) [0..<length (datasets st)] st)
             \<lparr> total_n_rows :=
                 sum_list (dataset_n_rows (fold (remove_step new) [0..<length (datasets st)] st)) \<rparr>"
    using removed.hyps(2) by (rule remove_rows_success)
  then show ?case using removed.IH by (simp add: cols_ok_def remove_fold_frame)
qed

text \<open>
  C5: on every reachable object and for every column below \<open>dataset_n_cols\<close>,
  \<open>get_column\<close> returns the bits of the kept rows of every dataset, the datasets in
  order and the kept rows of each in ascending order; the kept rows are the physical rows
  below the declared row count that are not in the removed list.  The vector has
  \<open>total_n_rows\<close> entries.
\<close>

theorem get_column_kept_rows:
  assumes "reachable st" and "column < dataset_n_cols st"
  shows "get_column st column =
           Inr (concat (map (kept_values st column) [0..<length (datasets st)])) \<and>
         int (length (concat (map (kept_values st column) [0..<length (datasets st)])))
           = total_n_rows st \<and>
         (\<forall>i<length (datasets st).
            sorted (kept_rows st i) \<and> distinct (kept_rows st i) \<and>
            set (kept_rows st i) =
              {p. int p < dataset_initial_n_rows st ! i \<and>
                  int p \<notin> set (dataset_removed_rows st ! i)} \<and>
            int (length (kept_values st column i)) = dataset_n_rows st ! i)"
proof -
  have wf: "wf_state st" using assms(1) by (rule reachable_wf)
  have cols: "\<forall>i<length (datasets st). column < ds_cols (datasets st ! i)"
    using reachable_cols_ok [OF assms(1)] assms(2) by (simp add: cols_ok_def)
  let ?n = "length (datasets st)"
  have tot: "total_n_rows st = (\<Sum>j<?n. dataset_n_rows st ! j)"
    using wf unfolding wf_state_def Let_def by simp
  have nn: "0 \<le> total_n_rows st"
    unfolding tot using wf_n_rows_nonneg [OF wf] by (intro sum_nonneg) simp
  have loop: "fold_err (get_column_step st column) [0..<?n] (replicate (nat (total_n_rows st)) False) =
       Inr (concat (map (kept_values st column) [0..<?n])
            @ replicate (nat (total_n_rows st) - nat (\<Sum>j<?n. dataset_n_rows st ! j)) False)"
    by (rule get_column_loop [OF wf cols]) simp
  have res: "get_column st column = Inr (concat (map (kept_values st column) [0..<?n]))"
    using loop nn tot by (simp add: get_column_def)
  have "int (length (concat (map (kept_values st column) [0..<k]))) =
          (\<Sum>j<k. dataset_n_rows st ! j)" if "k \<le> ?n" for k
    using that
  proof (induction k)
    case 0
    then show ?case by simp
  next
    case (Suc m)
    then show ?case
      using wf_kept_length [OF wf, of m] by (simp add: kept_values_def)
  qed
  from this [of ?n] have len: "int (length (concat (map (kept_values st column) [0..<?n])))
      = total_n_rows st"
    using tot by simp
  have kept: "\<forall>i<?n.
            sorted (kept_rows st i) \<and> distinct (kept_rows st i) \<and>
            set (kept_rows st i) =
              {p. int p < dataset_initial_n_rows st ! i \<and>
                  int p \<notin> set (dataset_removed_rows st ! i)} \<and>
            int (length (kept_values st column i)) = dataset_n_rows st ! i"
  proof (intro allI impI)
    fix i assume i: "i < ?n"
    have "sorted (kept_rows st i)"
      unfolding kept_rows_def by (intro sorted_wrt_filter) simp
    moreover have "distinct (kept_rows st i)"
      by (simp add: kept_rows_def)
    moreover have "set (kept_rows st i) =
              {p. int p < dataset_initial_n_rows st ! i \<and>
                  int p \<notin> set (dataset_removed_rows st ! i)}"
      by (auto simp: kept_rows_def)
    moreover have "int (length (kept_values st column i)) = dataset_n_rows st ! i"
      using wf_kept_length [OF wf i] by (simp add: kept_values_def)
    ultimately show "sorted (kept_rows st i) \<and> distinct (kept_rows st i) \<and>
            set (kept_rows st i) =
              {p. int p < dataset_initial_n_rows st ! i \<and>
                  int p \<notin> set (dataset_removed_rows st ! i)} \<and>
            int (length (kept_values st column i)) = dataset_n_rows st ! i"
      by blast
  qed
  show ?thesis using res len kept by blast
qed

theorem get_column_kept_rows_witness:
  "reachable ex_state_removed \<and> (0::nat) < dataset_n_cols ex_state_removed \<and>
   kept_rows ex_state_removed 0 = [0, 2] \<and> kept_rows ex_state_removed 1 = [0, 1, 2] \<and>
   get_column ex_state_removed 0 = Inr [True, True, True, False, True] \<and>
   total_n_rows ex_state_removed = 5"
proof -
  have c: "(0::nat) < dataset_n_cols ex_state_removed" by (simp add: ex_state_removed_def)
  have v: "concat (map (kept_values ex_state_removed 0) [0..<length (datasets ex_state_removed)])
             = [True, True, True, False, True]"
    by code_simp
  have k: "kept_rows ex_state_removed 0 = [0, 2] \<and> kept_rows ex_state_removed 1 = [0, 1, 2]"
    by code_simp
  have t: "total_n_rows ex_state_removed = 5" by (simp add: ex_state_removed_def)
  show ?thesis
    using get_column_kept_rows [OF ex_state_removed_reachable c] ex_state_removed_reachable c v k t
    by simp
qed

subsection \<open>Removing the same rows again\<close>










end
